theory Spec2Isabelle
  imports Main
begin

section \<open>Replay acquisition pipeline of \<^verbatim>\<open>scripts/replay_downloader.js\<close>\<close>

text \<open>
  The development follows the script function by function: the job store
  (the statements run against \<^verbatim>\<open>public.matches_to_download\<close>), the coordinator
  request, the replay URL resolver, the download loop, the message dispatch and
  the download cycle. Everything the script receives from outside (the rows of
  the table, the coordinator's answer, the outcome of every HTTP attempt, the
  clock, the friends list) is an argument of the model. Database statements are
  taken to succeed.
\<close>

subsection \<open>Job store\<close>

text \<open>
  The values of the \<^verbatim>\<open>status\<close> column and a row of
  \<^verbatim>\<open>matches_to_download\<close>. The column \<^verbatim>\<open>id\<close> is called \<open>job_id\<close> here
  (\<open>id\<close> is the identity function of HOL). \<open>None\<close> is SQL's \<^verbatim>\<open>NULL\<close>.
\<close>

datatype status = Pending | Processing | Downloaded | Error | Processed | Parsed | Notified

record job =
  job_id :: int
  share_code :: string
  user_id :: "string option"
  status :: status
  file_path :: "string option"
  coach_tip :: "string option"
  tip_sent :: "bool option"

type_synonym matches_to_download = "job list"

text \<open>
  \<^verbatim>\<open>m2.user_id = m.user_id\<close> in a \<^verbatim>\<open>where\<close> clause: a comparison with
  \<^verbatim>\<open>NULL\<close> is not true.
\<close>

definition sql_eq :: "'a option \<Rightarrow> 'a option \<Rightarrow> bool" where
  "sql_eq a b = (case a of None \<Rightarrow> False | Some x \<Rightarrow> b = Some x)"

text \<open>\<^verbatim>\<open>select max(id)\<close>: \<^verbatim>\<open>NULL\<close> over no rows.\<close>

definition sql_max :: "int list \<Rightarrow> int option" where
  "sql_max ids = (case ids of [] \<Rightarrow> None | i # rest \<Rightarrow> Some (fold max rest i))"

text \<open>
  The scalar subquery
  \<^verbatim>\<open>(select max(id) from public.matches_to_download m2 where m2.user_id = m.user_id)\<close>:
  it ranges over every row of the user, whatever its status.
\<close>

definition max_id_of_user :: "matches_to_download \<Rightarrow> job \<Rightarrow> int option" where
  "max_id_of_user db m =
     sql_max (map job_id (filter (\<lambda>m2. sql_eq (user_id m2) (user_id m)) db))"

text \<open>
  The \<^verbatim>\<open>where\<close> clause of the common table expression \<^verbatim>\<open>pending\<close>:
  \<^verbatim>\<open>status = 'pending' and id = (select max(id) ...)\<close>.
\<close>

definition pending_where :: "matches_to_download \<Rightarrow> job \<Rightarrow> bool" where
  "pending_where db m = (status m = Pending \<and> max_id_of_user db m = Some (job_id m))"

text \<open>\<^verbatim>\<open>order by id desc limit 1\<close>: the row with the greatest id, if there is a row.\<close>

definition id_desc_first :: "job \<Rightarrow> job \<Rightarrow> job" where
  "id_desc_first m best = (if job_id best < job_id m then m else best)"

definition order_by_id_desc_limit_1 :: "job list \<Rightarrow> job option" where
  "order_by_id_desc_limit_1 rows =
     (case rows of [] \<Rightarrow> None | r # rest \<Rightarrow> Some (fold id_desc_first rest r))"

definition pending_cte :: "matches_to_download \<Rightarrow> job option" where
  "pending_cte db = order_by_id_desc_limit_1 (filter (pending_where db) db)"

text \<open>
  The row the query returns. \<^verbatim>\<open>users.steam_id\<close> is the primary key of
  \<^verbatim>\<open>public.users\<close> and the join condition is
  \<^verbatim>\<open>u.steam_id::text = pending.user_id::text\<close>, so the left join keeps the one row
  and \<^verbatim>\<open>coalesce(u.steam_id::text, pending.user_id::text)\<close> is the text of
  \<^verbatim>\<open>user_id\<close> in both cases.
\<close>

record pending_row =
  row_id :: int
  row_share_code :: string
  row_user_id :: "string option"
  user_steam_id :: "string option"

definition select_row :: "job \<Rightarrow> pending_row" where
  "select_row m =
     \<lparr>row_id = job_id m, row_share_code = share_code m, row_user_id = user_id m,
      user_steam_id = user_id m\<rparr>"

text \<open>\<^verbatim>\<open>update public.matches_to_download set status = ... where id = $1\<close>.\<close>

definition set_status :: "int \<Rightarrow> status \<Rightarrow> matches_to_download \<Rightarrow> matches_to_download" where
  "set_status i s db = map (\<lambda>m. if job_id m = i then m\<lparr>status := s\<rparr> else m) db"

text \<open>
  \<^verbatim>\<open>getPendingMatch\<close>: the select and the update run between \<^verbatim>\<open>BEGIN\<close> and
  \<^verbatim>\<open>COMMIT\<close>, so the model is one step from the table before to the returned row
  and the table after. No other transaction holds a row lock during the step,
  so \<^verbatim>\<open>for update skip locked\<close> skips nothing.
\<close>

definition getPendingMatch :: "matches_to_download \<Rightarrow> pending_row option \<times> matches_to_download" where
  "getPendingMatch db =
     (case pending_cte db of
        None \<Rightarrow> (None, db)
      | Some m \<Rightarrow> (Some (select_row m), set_status (job_id m) Processing db))"

definition markDownloaded :: "int \<Rightarrow> string \<Rightarrow> matches_to_download \<Rightarrow> matches_to_download" where
  "markDownloaded i filePath db =
     map (\<lambda>m. if job_id m = i then m\<lparr>status := Downloaded, file_path := Some filePath\<rparr> else m) db"

definition markError :: "int \<Rightarrow> matches_to_download \<Rightarrow> matches_to_download" where
  "markError i db = set_status i Error db"

definition markPending :: "int \<Rightarrow> matches_to_download \<Rightarrow> matches_to_download" where
  "markPending i db = set_status i Pending db"

definition markTipSent :: "int \<Rightarrow> matches_to_download \<Rightarrow> matches_to_download" where
  "markTipSent matchId db =
     map (\<lambda>m. if job_id m = matchId then m\<lparr>status := Notified, tip_sent := Some True\<rparr> else m) db"

text \<open>A job as it is created outside the script: pending, nothing downloaded yet.\<close>

definition new_job :: "int \<Rightarrow> string \<Rightarrow> string \<Rightarrow> job" where
  "new_job i code u =
     \<lparr>job_id = i, share_code = code, user_id = Some u, status = Pending,
      file_path = None, coach_tip = None, tip_sent = None\<rparr>"

text \<open>
  \<open>eligible db i\<close>: the row with id \<open>i\<close> passes the \<^verbatim>\<open>where\<close> clause of the claim
  query. \<open>status_of\<close> reads the status of the row with a given id.
\<close>

definition eligible :: "matches_to_download \<Rightarrow> int \<Rightarrow> bool" where
  "eligible db i = (\<exists>m\<in>set db. job_id m = i \<and> pending_where db m)"

definition status_of :: "matches_to_download \<Rightarrow> int \<Rightarrow> status option" where
  "status_of db i = map_option status (find (\<lambda>m. job_id m = i) db)"

text \<open>
  The specification's description of a candidate, in its own words: the
  highest-id job with status \<^verbatim>\<open>pending\<close> of its user.
\<close>

definition highest_pending_of_user :: "matches_to_download \<Rightarrow> job \<Rightarrow> bool" where
  "highest_pending_of_user db m =
     (status m = Pending \<and>
      (\<forall>m2\<in>set db. status m2 = Pending \<and> sql_eq (user_id m2) (user_id m) \<longrightarrow> job_id m2 \<le> job_id m))"

text \<open>
  The operations on the table: the five statements of the script, and the
  insertion of a new pending job, which happens outside the script. \<^verbatim>\<open>id\<close> is
  the key of the table, so an insertion with an id already present changes
  nothing.
\<close>

datatype store_op =
    ClaimNext
  | MarkDownloaded int string
  | MarkError int
  | MarkPending int
  | MarkTipSent int
  | InsertJob int string string

fun apply_op :: "store_op \<Rightarrow> matches_to_download \<Rightarrow> matches_to_download" where
  "apply_op ClaimNext db = snd (getPendingMatch db)"
| "apply_op (MarkDownloaded i p) db = markDownloaded i p db"
| "apply_op (MarkError i) db = markError i db"
| "apply_op (MarkPending i) db = markPending i db"
| "apply_op (MarkTipSent i) db = markTipSent i db"
| "apply_op (InsertJob i code u) db =
     (if i \<in> set (map job_id db) then db else db @ [new_job i code u])"

fun claimed_id :: "store_op \<Rightarrow> matches_to_download \<Rightarrow> int option" where
  "claimed_id ClaimNext db = map_option row_id (fst (getPendingMatch db))"
| "claimed_id _ db = None"

fun target :: "store_op \<Rightarrow> int option" where
  "target ClaimNext = None"
| "target (MarkDownloaded i p) = Some i"
| "target (MarkError i) = Some i"
| "target (MarkPending i) = Some i"
| "target (MarkTipSent i) = Some i"
| "target (InsertJob i code u) = None"

fun run :: "store_op list \<Rightarrow> matches_to_download \<Rightarrow> matches_to_download" where
  "run [] db = db"
| "run (x # ops) db = run ops (apply_op x db)"

text \<open>The ids that the \<^verbatim>\<open>ClaimNext\<close> steps of a run return, in order.\<close>

fun run_claims :: "store_op list \<Rightarrow> matches_to_download \<Rightarrow> int list" where
  "run_claims [] db = []"
| "run_claims (x # ops) db =
     (case claimed_id x db of None \<Rightarrow> [] | Some i \<Rightarrow> [i]) @ run_claims ops (apply_op x db)"

text \<open>
  The tables that the operations reach from the empty table. \<open>allowed db i u\<close>
  says when a job with id \<open>i\<close> of user \<open>u\<close> may be inserted into \<open>db\<close>; ids are
  handed out in increasing order.
\<close>

inductive reachable ::
  "(matches_to_download \<Rightarrow> int \<Rightarrow> string \<Rightarrow> bool) \<Rightarrow> matches_to_download \<Rightarrow> bool"
  for allowed :: "matches_to_download \<Rightarrow> int \<Rightarrow> string \<Rightarrow> bool"
  where
    empty: "reachable allowed []"
  | insert: "reachable allowed db \<Longrightarrow> \<forall>m\<in>set db. job_id m < i \<Longrightarrow> allowed db i u \<Longrightarrow>
             reachable allowed (apply_op (InsertJob i code u) db)"
  | claim: "reachable allowed db \<Longrightarrow> reachable allowed (apply_op ClaimNext db)"
  | downloaded: "reachable allowed db \<Longrightarrow> reachable allowed (apply_op (MarkDownloaded i p) db)"
  | error: "reachable allowed db \<Longrightarrow> reachable allowed (apply_op (MarkError i) db)"
  | pending: "reachable allowed db \<Longrightarrow> reachable allowed (apply_op (MarkPending i) db)"
  | tip_sent: "reachable allowed db \<Longrightarrow> reachable allowed (apply_op (MarkTipSent i) db)"

definition any_time :: "matches_to_download \<Rightarrow> int \<Rightarrow> string \<Rightarrow> bool" where
  "any_time db i u = True"

definition user_idle :: "matches_to_download \<Rightarrow> int \<Rightarrow> string \<Rightarrow> bool" where
  "user_idle db i u = (\<forall>m\<in>set db. user_id m = Some u \<longrightarrow> status m \<noteq> Processing)"

text \<open>At most one job of a user is in status \<^verbatim>\<open>processing\<close>.\<close>

definition one_processing_per_user :: "matches_to_download \<Rightarrow> bool" where
  "one_processing_per_user db =
     (\<forall>m\<in>set db. \<forall>m'\<in>set db.
        status m = Processing \<and> status m' = Processing \<and> sql_eq (user_id m) (user_id m')
        \<longrightarrow> job_id m = job_id m')"

text \<open>
  Auxiliary notions for the proofs: the (user, id) pairs of the table, which no
  statement of the script changes; a row that carries the highest id of its
  user; a row with a newer row of the same user beside it; and the invariant
  that every processing row is the latest row of its user.
\<close>

definition keys :: "matches_to_download \<Rightarrow> (string option \<times> int) list" where
  "keys db = map (\<lambda>m. (user_id m, job_id m)) db"

definition latest_of_user :: "matches_to_download \<Rightarrow> job \<Rightarrow> bool" where
  "latest_of_user db m =
     (user_id m \<noteq> None \<and> (\<forall>k\<in>set (keys db). fst k = user_id m \<longrightarrow> snd k \<le> job_id m))"

definition parked :: "matches_to_download \<Rightarrow> int \<Rightarrow> bool" where
  "parked db i = (\<exists>a\<in>set db. \<exists>b\<in>set db. job_id a = i \<and> user_id b = user_id a \<and> i < job_id b)"

definition processing_latest :: "matches_to_download \<Rightarrow> bool" where
  "processing_latest db =
     (distinct (map job_id db) \<and> (\<forall>m\<in>set db. status m = Processing \<longrightarrow> latest_of_user db m))"

subsection \<open>Coordinator responses as JavaScript values\<close>

text \<open>
  The value the \<^verbatim>\<open>matchList\<close> event carries: objects, arrays and scalar leaves.
  An object is the list of its own properties in enumeration order, the first
  entry of a name being the property. Strings are lists of code units.

  A number is given by the string that \<^verbatim>\<open>String()\<close> returns for it, such as
  \<^verbatim>\<open>42\<close>, \<^verbatim>\<open>0.5\<close>, \<^verbatim>\<open>9007199254740994\<close>, \<^verbatim>\<open>1e+21\<close> or \<^verbatim>\<open>NaN\<close>. The script reads
  a number in no other way than through \<^verbatim>\<open>String()\<close>, a template literal and its
  truthiness, and the numbers that are falsy (\<^verbatim>\<open>0\<close>, \<^verbatim>\<open>-0\<close> and \<^verbatim>\<open>NaN\<close>) are
  those whose string is \<^verbatim>\<open>0\<close> or \<^verbatim>\<open>NaN\<close>.

  \<open>JFun\<close> is a built-in method with its name: the script can reach
  \<^verbatim>\<open>Array.prototype.map\<close> through \<^verbatim>\<open>lastRound?.map\<close> on an array and
  \<^verbatim>\<open>String.prototype.match\<close> through \<^verbatim>\<open>?.match\<close> on a string.
\<close>

datatype jsval =
    JUndefined
  | JNull
  | JBool bool
  | JNum string
  | JStr string
  | JArr "jsval list"
  | JObj "(string \<times> jsval) list"
  | JFun string

text \<open>Truthiness, as \<^verbatim>\<open>!v\<close>, \<^verbatim>\<open>a || b\<close> and \<^verbatim>\<open>if (v)\<close> test it.\<close>

fun truthy :: "jsval \<Rightarrow> bool" where
  "truthy JUndefined = False"
| "truthy JNull = False"
| "truthy (JBool b) = b"
| "truthy (JNum s) = (s \<noteq> ''0'' \<and> s \<noteq> ''NaN'')"
| "truthy (JStr s) = (s \<noteq> [])"
| "truthy (JArr xs) = True"
| "truthy (JObj kvs) = True"
| "truthy (JFun name) = True"

definition js_or :: "jsval \<Rightarrow> jsval \<Rightarrow> jsval" where
  "js_or a b = (if truthy a then a else b)"

text \<open>
  \<^verbatim>\<open>v?.name\<close> for the names the script reads (\<^verbatim>\<open>v.name\<close> is only used where
  \<^verbatim>\<open>v\<close> is known to be an object or an array). Of these names only \<^verbatim>\<open>map\<close> is
  inherited by arrays and only \<^verbatim>\<open>match\<close> by strings.
\<close>

fun dot :: "jsval \<Rightarrow> string \<Rightarrow> jsval" where
  "dot (JObj kvs) name = (case map_of kvs name of None \<Rightarrow> JUndefined | Some v \<Rightarrow> v)"
| "dot (JArr xs) name = (if name = ''map'' then JFun ''map'' else JUndefined)"
| "dot (JStr s) name = (if name = ''match'' then JFun ''match'' else JUndefined)"
| "dot v name = JUndefined"

text \<open>\<^verbatim>\<open>v?.[0]\<close>.\<close>

fun index0 :: "jsval \<Rightarrow> jsval" where
  "index0 (JArr xs) = (case xs of [] \<Rightarrow> JUndefined | x # rest \<Rightarrow> x)"
| "index0 (JObj kvs) = (case map_of kvs ''0'' of None \<Rightarrow> JUndefined | Some v \<Rightarrow> v)"
| "index0 (JStr s) = (case s of [] \<Rightarrow> JUndefined | c # rest \<Rightarrow> JStr [c])"
| "index0 v = JUndefined"

text \<open>
  \<^verbatim>\<open>Array.isArray(roundStats) ? roundStats[roundStats.length - 1] : null\<close>; index
  \<open>-1\<close> of an empty array is \<^verbatim>\<open>undefined\<close>.
\<close>

fun last_round :: "jsval \<Rightarrow> jsval" where
  "last_round (JArr xs) = (if xs = [] then JUndefined else last xs)"
| "last_round v = JNull"

text \<open>
  Decimal numerals. \<^verbatim>\<open>String(n)\<close> is the decimal numeral of \<open>n\<close> for a number with
  an integral value \<open>n\<close> of absolute value below \<open>2\<^sup>5\<^sup>3\<close>. The script prints the
  ids of rows and the status of a response, whose string forms are decimal
  numerals.
\<close>

definition digit_char :: "nat \<Rightarrow> char" where
  "digit_char d = ''0123456789'' ! d"

fun string_of_nat :: "nat \<Rightarrow> string" where
  "string_of_nat n =
     (if n < 10 then [digit_char n] else string_of_nat (n div 10) @ [digit_char (n mod 10)])"

declare string_of_nat.simps [simp del]

definition string_of_int :: "int \<Rightarrow> string" where
  "string_of_int i = (if i < 0 then CHR ''-'' # string_of_nat (nat (- i)) else string_of_nat (nat i))"

fun join_comma :: "string list \<Rightarrow> string" where
  "join_comma [] = []"
| "join_comma [s] = s"
| "join_comma (s # t # rest) = s @ '','' @ join_comma (t # rest)"

text \<open>
  \<^verbatim>\<open>String(v)\<close>, also what a template literal does with \<^verbatim>\<open>${v}\<close>. An array is its
  elements joined by commas, \<^verbatim>\<open>null\<close> and \<^verbatim>\<open>undefined\<close> elements giving the
  empty string.
\<close>

fun to_string :: "jsval \<Rightarrow> string" where
  "to_string JUndefined = ''undefined''"
| "to_string JNull = ''null''"
| "to_string (JBool b) = (if b then ''true'' else ''false'')"
| "to_string (JNum s) = s"
| "to_string (JStr s) = s"
| "to_string (JArr xs) =
     join_comma (map (\<lambda>x. if x = JUndefined \<or> x = JNull then [] else to_string x) xs)"
| "to_string (JObj kvs) = ''[object Object]''"
| "to_string (JFun name) = ''function '' @ name @ ''() { [native code] }''"

text \<open>\<^verbatim>\<open>s.padStart(n, c)\<close> for a one-character pad string: nothing is cut off.\<close>

definition padStart :: "nat \<Rightarrow> char \<Rightarrow> string \<Rightarrow> string" where
  "padStart n c s = replicate (n - length s) c @ s"

text \<open>\<^verbatim>\<open>s.includes(sub)\<close> (\<open>includes\<close> is a keyword of Isabelle).\<close>

fun str_includes :: "string \<Rightarrow> string \<Rightarrow> bool" where
  "str_includes [] sub = (sub = [])"
| "str_includes (c # s) sub = (take (length sub) (c # s) = sub \<or> str_includes s sub)"

subsection \<open>Replay URL resolver\<close>

text \<open>
  \<^verbatim>\<open>findReplayUrlInObject\<close>: the queue holds the nodes with their depths;
  \<^verbatim>\<open>queue.shift()\<close> takes the head, \<^verbatim>\<open>queue.push\<close> appends. The result is the
  first string found, \<^verbatim>\<open>null\<close> when the queue runs empty.
\<close>

function findReplayUrlInQueue :: "nat \<Rightarrow> (jsval \<times> nat) list \<Rightarrow> jsval" where
  "findReplayUrlInQueue maxDepth [] = JNull"
| "findReplayUrlInQueue maxDepth ((node, depth) # queue) =
     (if \<not> truthy node \<or> depth > maxDepth then findReplayUrlInQueue maxDepth queue
      else case node of
          JStr s \<Rightarrow> if str_includes s ''.dem.bz2'' then JStr s else findReplayUrlInQueue maxDepth queue
        | JArr xs \<Rightarrow> findReplayUrlInQueue maxDepth (queue @ map (\<lambda>item. (item, depth + 1)) xs)
        | JObj kvs \<Rightarrow>
            findReplayUrlInQueue maxDepth (queue @ map (\<lambda>item. (item, depth + 1)) (map snd kvs))
        | _ \<Rightarrow> findReplayUrlInQueue maxDepth queue)"
  by pat_completeness auto
termination
proof (relation "measure (\<lambda>(maxDepth, queue). sum_list (map (\<lambda>(node, depth). Suc (size node)) queue))")
  show "wf (measure (\<lambda>(maxDepth, queue). sum_list (map (\<lambda>(node, depth). Suc (size node)) queue)))"
    by simp
next
  fix maxDepth :: nat and node :: jsval and depth :: nat and queue :: "(jsval \<times> nat) list" and xs
  assume "node = JArr xs"
  moreover have "sum_list (map (\<lambda>(node, depth). Suc (size node)) (map (\<lambda>item. (item, depth + 1)) xs))
                 = size_list size xs"
    by (induction xs) simp_all
  ultimately show "((maxDepth, queue @ map (\<lambda>item. (item, depth + 1)) xs), maxDepth, (node, depth) # queue)
        \<in> measure (\<lambda>(maxDepth, queue). sum_list (map (\<lambda>(node, depth). Suc (size node)) queue))"
    by simp
next
  fix maxDepth :: nat and node :: jsval and depth :: nat and queue :: "(jsval \<times> nat) list" and kvs
  assume "node = JObj kvs"
  moreover have "sum_list (map (\<lambda>(node, depth). Suc (size node)) (map (\<lambda>item. (item, depth + 1)) (map snd kvs)))
                 \<le> size_list (size_prod (\<lambda>x. 0) size) kvs"
    by (induction kvs) auto
  ultimately show "((maxDepth, queue @ map (\<lambda>item. (item, depth + 1)) (map snd kvs)), maxDepth, (node, depth) # queue)
        \<in> measure (\<lambda>(maxDepth, queue). sum_list (map (\<lambda>(node, depth). Suc (size node)) queue))"
    by simp
qed simp_all

definition findReplayUrlInObject :: "jsval \<Rightarrow> jsval" where
  "findReplayUrlInObject v = findReplayUrlInQueue 6 [(v, 0)]"

text \<open>The values \<^verbatim>\<open>buildReplayUrl\<close> reads from the response.\<close>

definition watchable_of :: "jsval \<Rightarrow> jsval" where
  "watchable_of matchList =
     js_or (dot matchList ''watchablematchinfo'') (dot (index0 matchList) ''watchablematchinfo'')"

definition roundStats_of :: "jsval \<Rightarrow> jsval" where
  "roundStats_of matchList =
     js_or (dot matchList ''round_stats_all'') (dot (index0 matchList) ''round_stats_all'')"

definition serverIp_of :: "jsval \<Rightarrow> jsval" where
  "serverIp_of matchList = dot (watchable_of matchList) ''server_ip''"

definition tvPort_of :: "jsval \<Rightarrow> jsval" where
  "tvPort_of matchList = dot (watchable_of matchList) ''tv_port''"

definition reservationId_of :: "jsval \<Rightarrow> jsval" where
  "reservationId_of matchList = dot (last_round (roundStats_of matchList)) ''reservationid''"

text \<open>\<^verbatim>\<open>String(reservationId).padStart(21, "0")\<close>.\<close>

definition paddedReservation :: "jsval \<Rightarrow> string" where
  "paddedReservation reservationId = padStart 21 (CHR ''0'') (to_string reservationId)"

definition buildReplayUrl :: "jsval \<Rightarrow> jsval" where
  "buildReplayUrl matchList =
     (if \<not> truthy (serverIp_of matchList) \<or> \<not> truthy (tvPort_of matchList)
         \<or> \<not> truthy (reservationId_of matchList)
      then JNull
      else JStr (''http://replay'' @ to_string (serverIp_of matchList) @ ''.valve.net/730/''
                 @ paddedReservation (reservationId_of matchList) @ ''_''
                 @ to_string (tvPort_of matchList) @ ''.dem.bz2''))"

text \<open>
  The first six entries of the array \<^verbatim>\<open>candidates\<close> of \<^verbatim>\<open>findReplayUrl\<close>: the
  field paths read directly from the response, the sixth being
  \<^verbatim>\<open>alternativeUrl\<close>.
\<close>

definition alternativeUrl :: "jsval \<Rightarrow> jsval" where
  "alternativeUrl matchList =
     (let lastRound = last_round (roundStats_of matchList)
      in js_or (js_or (dot (dot lastRound ''reservation'') ''replay_url'') (dot lastRound ''map''))
               (dot lastRound ''replay_url''))"

definition direct_candidates :: "jsval \<Rightarrow> jsval list" where
  "direct_candidates matchList =
     [dot (dot matchList ''match'') ''replay_url'',
      dot (dot (index0 (dot matchList ''matches'')) ''match'') ''replay_url'',
      dot (index0 (dot matchList ''matches'')) ''replay_url'',
      dot matchList ''replay_url'',
      dot (index0 matchList) ''replay_url'',
      alternativeUrl matchList]"

definition candidates :: "jsval \<Rightarrow> jsval list" where
  "candidates matchList =
     direct_candidates matchList @ [buildReplayUrl matchList, findReplayUrlInObject matchList]"

text \<open>\<^verbatim>\<open>typeof value === "string" && value.length\<close>.\<close>

fun nonempty_string :: "jsval \<Rightarrow> bool" where
  "nonempty_string (JStr s) = (s \<noteq> [])"
| "nonempty_string v = False"

text \<open>\<^verbatim>\<open>typeof v === "object"\<close>.\<close>

fun typeof_object :: "jsval \<Rightarrow> bool" where
  "typeof_object JNull = True"
| "typeof_object (JArr xs) = True"
| "typeof_object (JObj kvs) = True"
| "typeof_object v = False"

text \<open>\<^verbatim>\<open>findReplayUrl\<close>; \<^verbatim>\<open>Array.prototype.find\<close> gives \<^verbatim>\<open>undefined\<close> when no entry passes.\<close>

definition findReplayUrl :: "jsval \<Rightarrow> jsval" where
  "findReplayUrl matchList =
     (if \<not> truthy matchList \<or> \<not> typeof_object matchList then JNull
      else case find nonempty_string (candidates matchList) of
             None \<Rightarrow> JUndefined
           | Some v \<Rightarrow> v)"

subsection \<open>Coordinator request\<close>

text \<open>
  A thrown value: \<open>None\<close> is a falsy value, \<open>Some e\<close> an error object with its
  \<^verbatim>\<open>name\<close>, its \<^verbatim>\<open>message\<close> when that is a string, and \<^verbatim>\<open>cause?.code\<close>.
\<close>

record js_error =
  error_name :: string
  error_message :: "string option"
  cause_code :: "string option"

type_synonym thrown = "js_error option"

text \<open>\<^verbatim>\<open>new Error(text)\<close>.\<close>

definition new_Error :: "string \<Rightarrow> thrown" where
  "new_Error text = Some \<lparr>error_name = ''Error'', error_message = Some text, cause_code = None\<rparr>"

text \<open>
  \<^verbatim>\<open>requestMatch\<close>. The promise's executor arms a timer of 20000 ms, attaches the
  handler with \<^verbatim>\<open>csgo.once("matchList", handler)\<close> and calls
  \<^verbatim>\<open>csgo.requestGame(shareCode)\<close>. The state of a request is whether the handler
  is attached, the delay of the timer while it is armed, and what the promise
  has settled to; a settled promise ignores later calls of \<^verbatim>\<open>resolve\<close> and
  \<^verbatim>\<open>reject\<close>.
\<close>

record request =
  listener_attached :: bool
  timer_ms :: "int option"
  settled :: "(thrown + jsval) option"

definition settle :: "thrown + jsval \<Rightarrow> request \<Rightarrow> request" where
  "settle v r = (case settled r of None \<Rightarrow> r\<lparr>settled := Some v\<rparr> | Some old \<Rightarrow> r)"

text \<open>
  The executor; the argument says whether \<^verbatim>\<open>requestGame\<close> throws, and what. The
  \<^verbatim>\<open>catch\<close> branch clears the timer, removes the listener and rejects.
\<close>

definition requestMatch_start :: "thrown option \<Rightarrow> request" where
  "requestMatch_start requestGame_throws =
     (let r = \<lparr>listener_attached = True, timer_ms = Some 20000, settled = None\<rparr>
      in case requestGame_throws of
           None \<Rightarrow> r
         | Some error \<Rightarrow> settle (Inl error) (r\<lparr>timer_ms := None, listener_attached := False\<rparr>))"

text \<open>
  What happens to a request afterwards: the timer runs out, or the coordinator
  emits \<^verbatim>\<open>matchList\<close>. The timer's callback only rejects. The handler is removed
  by \<^verbatim>\<open>once\<close> when it is called; it clears the timer and resolves.
\<close>

datatype request_event = TimerFires | MatchList jsval

fun on_event :: "request_event \<Rightarrow> request \<Rightarrow> request" where
  "on_event TimerFires r =
     (case timer_ms r of
        None \<Rightarrow> r
      | Some ms \<Rightarrow> settle (Inl (new_Error ''Timed out waiting for matchList'')) (r\<lparr>timer_ms := None\<rparr>))"
| "on_event (MatchList matchList) r =
     (if listener_attached r
      then settle (Inr matchList) (r\<lparr>listener_attached := False, timer_ms := None\<rparr>)
      else r)"

definition requestMatch :: "thrown option \<Rightarrow> request_event list \<Rightarrow> request" where
  "requestMatch requestGame_throws events = fold on_event events (requestMatch_start requestGame_throws)"

subsection \<open>Download\<close>

definition isRetryableFetchError :: "thrown \<Rightarrow> bool" where
  "isRetryableFetchError error =
     (case error of
        None \<Rightarrow> False
      | Some e \<Rightarrow>
          (let message = (case error_message e of Some text \<Rightarrow> text | None \<Rightarrow> []);
               causeCode = cause_code e
           in error_name e = ''AbortError'' \<or> causeCode = Some ''UND_ERR_SOCKET'' \<or>
              str_includes message ''terminated'' \<or> str_includes message ''other side closed''))"

text \<open>
  What one \<^verbatim>\<open>fetch\<close> does: it throws, or it gives a response. Of a response the
  loop reads \<^verbatim>\<open>status\<close>, \<^verbatim>\<open>ok\<close> (the status is in the range 200 to 299) and
  \<^verbatim>\<open>body\<close>. \<open>body = None\<close> is a response whose \<^verbatim>\<open>body\<close> is \<^verbatim>\<open>null\<close>. \<open>Some p\<close> is
  a response whose \<^verbatim>\<open>body\<close> is a stream, which is an object and so truthy also
  when the stream carries no bytes; \<open>p\<close> is the outcome of piping the stream
  through \<^verbatim>\<open>unbzip2()\<close> into the output file.
\<close>

datatype pipeline_result = Piped | PipelineThrows thrown

record response =
  http_status :: int
  body :: "pipeline_result option"

definition response_ok :: "response \<Rightarrow> bool" where
  "response_ok r = (200 \<le> http_status r \<and> http_status r \<le> 299)"

datatype fetch_result = FetchThrows thrown | Responds response

text \<open>What a call of \<^verbatim>\<open>downloadReplay\<close> does besides returning or throwing.\<close>

datatype effect =
    Fetch string nat
  | CreateWriteStream string
  | RemoveFile string
  | Sleep int

definition maxAttempts :: nat where
  "maxAttempts = 6"

definition retryable :: "int \<Rightarrow> bool" where
  "retryable s = (s = 502 \<or> s = 503 \<or> s = 504)"

text \<open>How one pass through the loop body ends.\<close>

datatype loop_exit = Return | Continue int | Throw thrown

text \<open>The outer \<^verbatim>\<open>catch\<close> of the loop body.\<close>

definition outer_catch :: "nat \<Rightarrow> thrown \<Rightarrow> loop_exit" where
  "outer_catch attempt error =
     (if attempt < maxAttempts \<and> isRetryableFetchError error then Continue (3000 * int attempt)
      else Throw error)"

text \<open>
  The loop body. An error of the pipeline that the inner \<^verbatim>\<open>catch\<close> throws again
  is caught by the outer one.
\<close>

definition attempt_body :: "string \<Rightarrow> nat \<Rightarrow> fetch_result \<Rightarrow> loop_exit \<times> effect list" where
  "attempt_body outputFile attempt fetched =
     (case fetched of
        FetchThrows error \<Rightarrow> (outer_catch attempt error, [])
      | Responds response \<Rightarrow>
          (case (if response_ok response then body response else None) of
             Some Piped \<Rightarrow> (Return, [CreateWriteStream outputFile])
           | Some (PipelineThrows error) \<Rightarrow>
               (if attempt < maxAttempts \<and> isRetryableFetchError error
                then Continue (3000 * int attempt)
                else outer_catch attempt error,
                [CreateWriteStream outputFile, RemoveFile outputFile])
           | None \<Rightarrow>
               if retryable (http_status response) \<and> attempt < maxAttempts
               then (Continue (3000 * int attempt), [])
               else (Throw (new_Error (''Replay download failed: '' @ string_of_int (http_status response))), [])))"

text \<open>
  The loop from a given attempt on. \<open>net url attempt\<close> is what the fetch of that
  attempt does. A call that leaves the loop without \<^verbatim>\<open>return\<close> or \<^verbatim>\<open>throw\<close>
  returns as well.
\<close>

function downloadReplay_from ::
  "(string \<Rightarrow> nat \<Rightarrow> fetch_result) \<Rightarrow> string \<Rightarrow> string \<Rightarrow> nat \<Rightarrow> (thrown + unit) \<times> effect list" where
  "downloadReplay_from net url outputFile attempt =
     (if attempt \<le> maxAttempts then
        (case attempt_body outputFile attempt (net url attempt) of
           (Return, effects) \<Rightarrow> (Inr (), Fetch url attempt # effects)
         | (Throw error, effects) \<Rightarrow> (Inl error, Fetch url attempt # effects)
         | (Continue ms, effects) \<Rightarrow>
             (case downloadReplay_from net url outputFile (attempt + 1) of
                (result, later) \<Rightarrow> (result, Fetch url attempt # effects @ Sleep ms # later)))
      else (Inr (), []))"
  by pat_completeness auto
termination
  by (relation "measure (\<lambda>(net, url, outputFile, attempt). Suc maxAttempts - attempt)") auto

declare downloadReplay_from.simps [simp del]

definition downloadReplay ::
  "(string \<Rightarrow> nat \<Rightarrow> fetch_result) \<Rightarrow> string \<Rightarrow> string \<Rightarrow> (thrown + unit) \<times> effect list" where
  "downloadReplay net url outputFile = downloadReplay_from net url outputFile 1"


fun fetches :: "effect list \<Rightarrow> nat list" where
  "fetches [] = []"
| "fetches (Fetch url attempt # es) = attempt # fetches es"
| "fetches (e # es) = fetches es"

text \<open>
  Responses used in the examples: a status with the body \<^verbatim>\<open>null\<close>, a body that
  is piped, and a body stream without bytes, with what the pipeline does on it.
\<close>

definition status_only :: "int \<Rightarrow> fetch_result" where
  "status_only s = Responds \<lparr>http_status = s, body = None\<rparr>"

definition ok_with_body :: fetch_result where
  "ok_with_body = Responds \<lparr>http_status = 200, body = Some Piped\<rparr>"

definition three_502_then_ok :: "string \<Rightarrow> nat \<Rightarrow> fetch_result" where
  "three_502_then_ok url attempt = (if attempt \<le> 3 then status_only 502 else ok_with_body)"

definition always_502 :: "string \<Rightarrow> nat \<Rightarrow> fetch_result" where
  "always_502 url attempt = status_only 502"



definition no_body_200 :: "string \<Rightarrow> nat \<Rightarrow> fetch_result" where
  "no_body_200 url attempt = status_only 200"

definition body_without_bytes :: "pipeline_result \<Rightarrow> string \<Rightarrow> nat \<Rightarrow> fetch_result" where
  "body_without_bytes p url attempt = Responds \<lparr>http_status = 200, body = Some p\<rparr>"

subsection \<open>Messages\<close>

text \<open>
  The enumeration \<^verbatim>\<open>SteamUser.EFriendRelationship\<close> of the \<^verbatim>\<open>steam-user\<close>
  library, in the order of its values 0 to 7; \<^verbatim>\<open>None\<close> is 0, the only falsy
  member. \<^verbatim>\<open>client.myFriends\<close> and \<^verbatim>\<open>client.friends\<close> map a steam id to a
  relationship; either of the two objects may be missing.
\<close>

datatype EFriendRelationship =
    Relationship_None
  | Blocked
  | RequestRecipient
  | Friend
  | RequestInitiator
  | Ignored
  | IgnoredFriend
  | SuggestedFriend

record steam_client =
  myFriends :: "(string \<Rightarrow> EFriendRelationship option) option"
  friends :: "(string \<Rightarrow> EFriendRelationship option) option"

text \<open>\<^verbatim>\<open>client.myFriends?.[steamId] ?? client.friends?.[steamId]\<close>.\<close>

definition relationship_of :: "steam_client \<Rightarrow> string \<Rightarrow> EFriendRelationship option" where
  "relationship_of client steamId =
     (case (case myFriends client of None \<Rightarrow> None | Some table \<Rightarrow> table steamId) of
        Some relationship \<Rightarrow> Some relationship
      | None \<Rightarrow> (case friends client of None \<Rightarrow> None | Some table \<Rightarrow> table steamId))"

text \<open>
  \<^verbatim>\<open>canMessageUser\<close>; the steam id is the text of \<^verbatim>\<open>user_steam_id\<close>, falsy when
  it is \<^verbatim>\<open>null\<close> or empty.
\<close>

definition canMessageUser :: "steam_client \<Rightarrow> string option \<Rightarrow> bool" where
  "canMessageUser client steamId =
     (case steamId of
        None \<Rightarrow> False
      | Some sid \<Rightarrow>
          if sid = [] then False
          else (case relationship_of client sid of
                  None \<Rightarrow> False
                | Some relationship \<Rightarrow>
                    relationship \<noteq> Relationship_None \<and> relationship \<noteq> Blocked \<and>
                    relationship \<noteq> Ignored))"

text \<open>The rows of \<^verbatim>\<open>fetchPendingTips\<close>, ordered by id.\<close>

record tip_row =
  tip_id :: int
  tip_user_id :: "string option"
  tip_coach_tip :: string
  tip_steam_id :: "string option"

definition tip_where :: "job \<Rightarrow> bool" where
  "tip_where m =
     ((status m = Processed \<or> status m = Parsed) \<and> coach_tip m \<noteq> None \<and>
      (tip_sent m = None \<or> tip_sent m = Some False))"

definition tip_select :: "job \<Rightarrow> tip_row" where
  "tip_select m =
     \<lparr>tip_id = job_id m, tip_user_id = user_id m,
      tip_coach_tip = (case coach_tip m of None \<Rightarrow> [] | Some text \<Rightarrow> text),
      tip_steam_id = user_id m\<rparr>"

definition fetchPendingTips :: "matches_to_download \<Rightarrow> tip_row list" where
  "fetchPendingTips db = map tip_select (sort_key job_id (filter tip_where db))"

text \<open>
  What the message loop does, in order: the warning for a user that cannot be
  messaged, the call of \<^verbatim>\<open>sendFriendMessage\<close> for a row, the update
  \<^verbatim>\<open>markTipSent\<close>, and the warning after a call that threw.
\<close>

datatype message_effect =
    CannotMessage int
  | SendFriendMessage int string string
  | TipSent int
  | SendFailed int

text \<open>
  The body of the \<^verbatim>\<open>for\<close> loop of \<^verbatim>\<open>sendPendingMessages\<close> over the fetched
  rows; \<open>send_throws i\<close> says whether \<^verbatim>\<open>sendFriendMessage\<close> throws for the row
  with id \<open>i\<close>.
\<close>

fun send_rows ::
  "steam_client \<Rightarrow> (int \<Rightarrow> bool) \<Rightarrow> tip_row list \<Rightarrow> matches_to_download
     \<Rightarrow> matches_to_download \<times> message_effect list" where
  "send_rows client send_throws [] db = (db, [])"
| "send_rows client send_throws (row # rows) db =
     (case tip_steam_id row of
        None \<Rightarrow>
          (case send_rows client send_throws rows db of
             (db', later) \<Rightarrow> (db', CannotMessage (tip_id row) # later))
      | Some steamId \<Rightarrow>
          if \<not> canMessageUser client (Some steamId) then
            (case send_rows client send_throws rows db of
               (db', later) \<Rightarrow> (db', CannotMessage (tip_id row) # later))
          else if send_throws (tip_id row) then
            (case send_rows client send_throws rows db of
               (db', later) \<Rightarrow>
                 (db', SendFriendMessage (tip_id row) steamId (tip_coach_tip row)
                       # SendFailed (tip_id row) # later))
          else
            (case send_rows client send_throws rows (markTipSent (tip_id row) db) of
               (db', later) \<Rightarrow>
                 (db', SendFriendMessage (tip_id row) steamId (tip_coach_tip row)
                       # TipSent (tip_id row) # later)))"

text \<open>
  Every \<^verbatim>\<open>markTipSent\<close> in a trace comes directly after the call of
  \<^verbatim>\<open>sendFriendMessage\<close> for the same row, and that call did not throw.
\<close>

definition tip_follows_send :: "(int \<Rightarrow> bool) \<Rightarrow> message_effect list \<Rightarrow> bool" where
  "tip_follows_send send_throws es =
     (\<forall>pre post i. es = pre @ TipSent i # post \<longrightarrow>
        (\<exists>pre' sid msg. pre = pre' @ [SendFriendMessage i sid msg]) \<and> \<not> send_throws i)"

text \<open>The two guards of the message line and of the download line.\<close>

record flags =
  isSendingTips :: bool
  steamReady :: bool
  isProcessing :: bool
  gcReady :: bool

definition sendPendingMessages ::
  "flags \<Rightarrow> steam_client \<Rightarrow> (int \<Rightarrow> bool) \<Rightarrow> matches_to_download
     \<Rightarrow> matches_to_download \<times> message_effect list" where
  "sendPendingMessages fl client send_throws db =
     (if isSendingTips fl \<or> \<not> steamReady fl then (db, [])
      else send_rows client send_throws (fetchPendingTips db) db)"

subsection \<open>Download cycle\<close>

text \<open>
  The configuration read from the environment, with the script's defaults, and
  the directory \<^verbatim>\<open>downloads\<close> under the working directory.
\<close>

record config =
  RETRY_COOLDOWN_MS :: int
  DOWNLOAD_TIMEOUT_MS :: int
  downloadsDir :: string

definition default_config :: config where
  "default_config =
     \<lparr>RETRY_COOLDOWN_MS = 300000, DOWNLOAD_TIMEOUT_MS = 120000, downloadsDir = ''downloads''\<rparr>"

text \<open>
  What one cycle meets outside the script: the two readings of \<^verbatim>\<open>Date.now()\<close>
  (at the cooldown check and in the \<^verbatim>\<open>catch\<close> block), what the awaited
  \<^verbatim>\<open>requestMatch\<close> settles to, whether \<^verbatim>\<open>ensureDownloadsDir\<close> throws, what the
  fetches do, and the friends list for the message.
\<close>

record cycle_env =
  now_at_check :: int
  now_at_catch :: int
  matchList_result :: "thrown + jsval"
  mkdir_throws :: "thrown option"
  net :: "string \<Rightarrow> nat \<Rightarrow> fetch_result"
  client :: steam_client

text \<open>The state of the download line that outlives a cycle.\<close>

record downloader =
  retryAfterByMatchId :: "int \<Rightarrow> int option"
  table :: matches_to_download
  download_messages :: "(string \<times> int) list"

text \<open>
  \<^verbatim>\<open>sendDownloadMessage\<close>: the steam ids and match ids for which
  \<^verbatim>\<open>sendFriendMessage\<close> is called; what the call throws is caught.
\<close>

definition sendDownloadMessage ::
  "steam_client \<Rightarrow> string option \<Rightarrow> int \<Rightarrow> (string \<times> int) list \<Rightarrow> (string \<times> int) list" where
  "sendDownloadMessage cl steamId matchId sent =
     (case steamId of
        None \<Rightarrow> sent
      | Some sid \<Rightarrow> if canMessageUser cl (Some sid) then sent @ [(sid, matchId)] else sent)"

text \<open>\<^verbatim>\<open>path.join(downloadsDir, `match_${row.id}.dem`)\<close>.\<close>

definition outputFile_of :: "config \<Rightarrow> int \<Rightarrow> string" where
  "outputFile_of cfg i = downloadsDir cfg @ ''/match_'' @ string_of_int i @ ''.dem''"

text \<open>
  The \<^verbatim>\<open>try\<close> block after the cooldown check: \<open>Inl\<close> is the value thrown, \<open>Inr\<close>
  the state after a normal end.
\<close>

definition try_download :: "config \<Rightarrow> cycle_env \<Rightarrow> pending_row \<Rightarrow> downloader
    \<Rightarrow> thrown + downloader" where
  "try_download cfg env row st =
     (case matchList_result env of
        Inl error \<Rightarrow> Inl error
      | Inr matchList \<Rightarrow>
          (let replayUrl = findReplayUrl matchList
           in if \<not> truthy replayUrl then Inr (st\<lparr>table := markPending (row_id row) (table st)\<rparr>)
              else (case mkdir_throws env of
                      Some error \<Rightarrow> Inl error
                    | None \<Rightarrow>
                        (case fst (downloadReplay (net env) (to_string replayUrl)
                                     (outputFile_of cfg (row_id row))) of
                           Inl error \<Rightarrow> Inl error
                         | Inr u \<Rightarrow>
                             Inr (st\<lparr>table := markDownloaded (row_id row)
                                                 (outputFile_of cfg (row_id row)) (table st),
                                     download_messages :=
                                       sendDownloadMessage (client env) (user_steam_id row)
                                         (row_id row) (download_messages st)\<rparr>)))))"

text \<open>
  \<^verbatim>\<open>typeof error?.message === "string" ? error.message : ""\<close>.
\<close>

definition message_of :: "thrown \<Rightarrow> string" where
  "message_of error =
     (case error of None \<Rightarrow> [] | Some e \<Rightarrow> (case error_message e of None \<Rightarrow> [] | Some msg \<Rightarrow> msg))"

text \<open>The \<^verbatim>\<open>catch\<close> block, for a cycle that has claimed a row.\<close>

definition catch_error :: "config \<Rightarrow> cycle_env \<Rightarrow> pending_row \<Rightarrow> thrown \<Rightarrow> downloader \<Rightarrow> downloader" where
  "catch_error cfg env currentRow error st =
     (let message = message_of error
      in if str_includes message ''Replay download failed: 502''
         then st\<lparr>retryAfterByMatchId :=
                    (retryAfterByMatchId st)
                      (row_id currentRow \<mapsto> now_at_catch env + RETRY_COOLDOWN_MS cfg),
                  table := markPending (row_id currentRow) (table st)\<rparr>
         else st\<lparr>table := markError (row_id currentRow) (table st)\<rparr>)"

text \<open>
  \<^verbatim>\<open>processPending\<close>. The guard \<^verbatim>\<open>isProcessing\<close> is set during the cycle and
  cleared in the \<^verbatim>\<open>finally\<close> block, so a cycle that runs leaves the flags as
  they were. \<^verbatim>\<open>retryAfter && Date.now() < retryAfter\<close> is false for a missing
  entry and for 0.
\<close>

definition processPending :: "config \<Rightarrow> cycle_env \<Rightarrow> flags \<Rightarrow> downloader \<Rightarrow> downloader" where
  "processPending cfg env fl st =
     (if isProcessing fl \<or> \<not> gcReady fl then st
      else (case getPendingMatch (table st) of
              (None, db) \<Rightarrow> st\<lparr>table := db\<rparr>
            | (Some row, db) \<Rightarrow>
                (let cooling = (case retryAfterByMatchId st (row_id row) of
                                  None \<Rightarrow> False
                                | Some retryAfter \<Rightarrow> retryAfter \<noteq> 0 \<and> now_at_check env < retryAfter)
                 in if cooling then st\<lparr>table := markPending (row_id row) db\<rparr>
                    else (case try_download cfg env row (st\<lparr>table := db\<rparr>) of
                            Inr st' \<Rightarrow> st'
                          | Inl error \<Rightarrow> catch_error cfg env row error (st\<lparr>table := db\<rparr>)))))"

text \<open>Values used in the examples.\<close>

definition idle :: flags where
  "idle = \<lparr>isSendingTips = False, steamReady = True, isProcessing = False, gcReady = True\<rparr>"

definition no_friends :: steam_client where
  "no_friends = \<lparr>myFriends = Some (\<lambda>steamId. None), friends = None\<rparr>"


definition env_with :: "(thrown + jsval) \<Rightarrow> (string \<Rightarrow> nat \<Rightarrow> fetch_result) \<Rightarrow> cycle_env" where
  "env_with answer fetched =
     \<lparr>now_at_check = 1000, now_at_catch = 50000, matchList_result = answer,
      mkdir_throws = None, net = fetched, client = no_friends\<rparr>"

definition one_pending :: downloader where
  "one_pending =
     \<lparr>retryAfterByMatchId = (\<lambda>i. None), table = [new_job 12 ''CSGO-b'' ''u1''],
      download_messages = []\<rparr>"

definition friends_of_u1 :: "EFriendRelationship \<Rightarrow> steam_client" where
  "friends_of_u1 relationship =
     \<lparr>myFriends = Some (\<lambda>steamId. if steamId = ''u1'' then Some relationship else Some Friend),
      friends = None\<rparr>"

definition with_tip :: "int \<Rightarrow> string \<Rightarrow> string \<Rightarrow> job" where
  "with_tip i u text = (new_job i ''CSGO'' u)\<lparr>status := Parsed, coach_tip := Some text\<rparr>"

definition never_throws :: "int \<Rightarrow> bool" where
  "never_throws i = False"

section \<open>Properties of the job store\<close>

lemma sql_max_Some_iff:
  "sql_max ids = Some i \<longleftrightarrow> i \<in> set ids \<and> (\<forall>k\<in>set ids. k \<le> i)"
proof (cases ids)
  case Nil
  then show ?thesis by (simp add: sql_max_def)
next
  case (Cons a rest)
  have "fold max rest a = Max (set (a # rest))"
    by (simp only: Max.set_eq_fold)
  moreover have "Max (set (a # rest)) = i \<longleftrightarrow> i \<in> set (a # rest) \<and> (\<forall>k\<in>set (a # rest). k \<le> i)"
    by (metis List.finite_set Max_eqI Max_ge Max_in empty_iff list.distinct(1) set_empty)
  ultimately show ?thesis using Cons by (simp add: sql_max_def)
qed

lemma sql_eq_iff: "sql_eq a b \<longleftrightarrow> (\<exists>x. a = Some x \<and> b = Some x)"
  by (cases a) (auto simp: sql_eq_def)

lemma pending_where_iff:
  "pending_where db m \<longleftrightarrow>
     status m = Pending \<and>
     (\<exists>m2\<in>set db. sql_eq (user_id m2) (user_id m) \<and> job_id m2 = job_id m) \<and>
     (\<forall>m2\<in>set db. sql_eq (user_id m2) (user_id m) \<longrightarrow> job_id m2 \<le> job_id m)"
proof -
  let ?U = "{m2 \<in> set db. sql_eq (user_id m2) (user_id m)}"
  have "pending_where db m \<longleftrightarrow>
        status m = Pending \<and> job_id m \<in> job_id ` ?U \<and> (\<forall>k\<in>job_id ` ?U. k \<le> job_id m)"
    by (simp add: pending_where_def max_id_of_user_def sql_max_Some_iff)
  also have "job_id m \<in> job_id ` ?U \<longleftrightarrow>
             (\<exists>m2\<in>set db. sql_eq (user_id m2) (user_id m) \<and> job_id m2 = job_id m)"
    unfolding image_iff by (rule iffI; clarsimp; metis)
  also have "(\<forall>k\<in>job_id ` ?U. k \<le> job_id m) \<longleftrightarrow>
             (\<forall>m2\<in>set db. sql_eq (user_id m2) (user_id m) \<longrightarrow> job_id m2 \<le> job_id m)"
    by blast
  finally show ?thesis .
qed

lemma id_desc_first_cases: "id_desc_first a r = a \<or> id_desc_first a r = r"
  by (simp add: id_desc_first_def)

lemma id_desc_first_ge: "job_id a \<le> job_id (id_desc_first a r)" "job_id r \<le> job_id (id_desc_first a r)"
  by (simp_all add: id_desc_first_def)

lemma fold_best_in: "fold id_desc_first rest r \<in> set (r # rest)"
proof (induction rest arbitrary: r)
  case Nil
  show ?case by simp
next
  case (Cons a rest)
  have "fold id_desc_first rest (id_desc_first a r) \<in> set (id_desc_first a r # rest)"
    by (rule Cons.IH)
  then show ?case using id_desc_first_cases[of a r] by auto
qed

lemma fold_best_mono: "job_id r \<le> job_id (fold id_desc_first rest r)"
proof (induction rest arbitrary: r)
  case Nil
  show ?case by simp
next
  case (Cons a rest)
  have "job_id r \<le> job_id (id_desc_first a r)" by (rule id_desc_first_ge)
  also have "\<dots> \<le> job_id (fold id_desc_first rest (id_desc_first a r))" by (rule Cons.IH)
  finally show ?case by simp
qed

lemma fold_best_ge: "m \<in> set (r # rest) \<Longrightarrow> job_id m \<le> job_id (fold id_desc_first rest r)"
proof (induction rest arbitrary: r)
  case Nil
  then show ?case by simp
next
  case (Cons a rest)
  from Cons.prems consider "m = r" | "m = a" | "m \<in> set rest" by auto
  then show ?case
  proof cases
    case 1
    then show ?thesis
      using id_desc_first_ge(2)[of r a] fold_best_mono[of "id_desc_first a r" rest] by simp
  next
    case 2
    then show ?thesis
      using id_desc_first_ge(1)[of a r] fold_best_mono[of "id_desc_first a r" rest] by simp
  next
    case 3
    then show ?thesis using Cons.IH[of "id_desc_first a r"] by simp
  qed
qed

lemma order_by_id_desc_limit_1_None: "order_by_id_desc_limit_1 rows = None \<longleftrightarrow> rows = []"
  by (cases rows) (simp_all add: order_by_id_desc_limit_1_def)

lemma order_by_id_desc_limit_1_Some:
  assumes "order_by_id_desc_limit_1 rows = Some r"
  shows "r \<in> set rows \<and> (\<forall>m\<in>set rows. job_id m \<le> job_id r)"
proof (cases rows)
  case Nil
  with assms show ?thesis by (simp add: order_by_id_desc_limit_1_def)
next
  case (Cons a rest)
  with assms have r: "r = fold id_desc_first rest a" by (simp add: order_by_id_desc_limit_1_def)
  show ?thesis unfolding r Cons using fold_best_in[of rest a] fold_best_ge[of _ a rest] by blast
qed

lemma pending_cte_None: "pending_cte db = None \<longleftrightarrow> (\<forall>m\<in>set db. \<not> pending_where db m)"
  by (simp add: pending_cte_def order_by_id_desc_limit_1_None filter_empty_conv)

lemma pending_cte_Some:
  "pending_cte db = Some r \<Longrightarrow>
     r \<in> set db \<and> pending_where db r \<and> (\<forall>m\<in>set db. pending_where db m \<longrightarrow> job_id m \<le> job_id r)"
  unfolding pending_cte_def by (drule order_by_id_desc_limit_1_Some) auto

lemma set_status_ids [simp]: "map job_id (set_status i s db) = map job_id db"
  by (induction db) (simp_all add: set_status_def)

lemma set_status_users [simp]: "map user_id (set_status i s db) = map user_id db"
  by (induction db) (simp_all add: set_status_def)

lemma markDownloaded_ids [simp]: "map job_id (markDownloaded i p db) = map job_id db"
  by (induction db) (simp_all add: markDownloaded_def)

lemma markTipSent_ids [simp]: "map job_id (markTipSent i db) = map job_id db"
  by (induction db) (simp_all add: markTipSent_def)

lemma pending_where_latest:
  assumes "m \<in> set db"
  shows "pending_where db m \<longleftrightarrow> status m = Pending \<and> latest_of_user db m"
proof -
  have 1: "(\<exists>m2\<in>set db. sql_eq (user_id m2) (user_id m) \<and> job_id m2 = job_id m) \<longleftrightarrow> user_id m \<noteq> None"
    using assms by (auto simp: sql_eq_iff)
  have 2: "user_id m \<noteq> None \<Longrightarrow>
           (\<forall>m2\<in>set db. sql_eq (user_id m2) (user_id m) \<longrightarrow> job_id m2 \<le> job_id m) \<longleftrightarrow>
           (\<forall>k\<in>set (keys db). fst k = user_id m \<longrightarrow> snd k \<le> job_id m)"
    by (auto simp: sql_eq_iff keys_def)
  show ?thesis unfolding pending_where_iff latest_of_user_def using 1 2 by blast
qed

lemma keys_set_status [simp]: "keys (set_status i s db) = keys db"
  by (induction db) (simp_all add: keys_def set_status_def)

lemma keys_markDownloaded [simp]: "keys (markDownloaded i p db) = keys db"
  by (induction db) (simp_all add: keys_def markDownloaded_def)

lemma keys_markTipSent [simp]: "keys (markTipSent i db) = keys db"
  by (induction db) (simp_all add: keys_def markTipSent_def)

lemma keys_mem: "m \<in> set db \<Longrightarrow> (user_id m, job_id m) \<in> set (keys db)"
  by (induction db) (auto simp: keys_def)

lemma keys_ids: "map job_id db = map snd (keys db)"
  by (simp add: keys_def comp_def)

lemma getPendingMatch_cases:
  obtains (none) "pending_cte db = None" "getPendingMatch db = (None, db)"
  | (some) r where "pending_cte db = Some r" "r \<in> set db" "pending_where db r"
      "\<forall>m\<in>set db. pending_where db m \<longrightarrow> job_id m \<le> job_id r"
      "getPendingMatch db = (Some (select_row r), set_status (job_id r) Processing db)"
proof (cases "pending_cte db")
  case None
  then show ?thesis using none by (simp add: getPendingMatch_def)
next
  case (Some r)
  then show ?thesis using some[of r] pending_cte_Some[OF Some] by (simp add: getPendingMatch_def)
qed

lemma keys_apply_op:
  "keys (apply_op x db) = keys db \<or>
   (\<exists>i code u. x = InsertJob i code u \<and> i \<notin> set (map job_id db) \<and> keys (apply_op x db) = keys db @ [(Some u, i)])"
proof (cases x)
  case ClaimNext
  then show ?thesis by (cases db rule: getPendingMatch_cases) simp_all
next
  case (InsertJob i code u)
  then show ?thesis by (simp add: keys_def new_job_def)
qed (simp_all add: markError_def markPending_def)

lemma distinct_apply_op: "distinct (map job_id db) \<Longrightarrow> distinct (map job_id (apply_op x db))"
  using keys_apply_op[of x db] by (auto simp: keys_ids)

lemma parked_keys: "parked db i \<longleftrightarrow> (\<exists>u j. (u, i) \<in> set (keys db) \<and> (u, j) \<in> set (keys db) \<and> i < j)"
  unfolding parked_def keys_def by (auto simp: image_iff) metis

lemma parked_apply_op: "parked db i \<Longrightarrow> parked (apply_op x db) i"
proof -
  assume "parked db i"
  then obtain u j where uj: "(u, i) \<in> set (keys db)" "(u, j) \<in> set (keys db)" "i < j"
    unfolding parked_keys by blast
  have "set (keys db) \<subseteq> set (keys (apply_op x db))"
    using keys_apply_op[of x db] by auto
  with uj show ?thesis unfolding parked_keys by blast
qed

lemma parked_not_eligible:
  assumes "distinct (map job_id db)" "parked db i"
  shows "\<not> eligible db i"
proof
  assume "eligible db i"
  then obtain r where r: "r \<in> set db" "job_id r = i" "pending_where db r"
    by (auto simp: eligible_def)
  from assms(2) obtain a b where ab: "a \<in> set db" "b \<in> set db" "job_id a = i"
      "user_id b = user_id a" "i < job_id b"
    by (auto simp: parked_def)
  from assms(1) r(1,2) ab(1,3) have "r = a"
    by (metis distinct_map inj_on_def)
  with r(1,3) have "latest_of_user db a" by (simp add: pending_where_latest)
  moreover have "(user_id a, job_id b) \<in> set (keys db)"
    using keys_mem[OF ab(2)] ab(4) by simp
  ultimately have "job_id b \<le> job_id a" by (auto simp: latest_of_user_def)
  with ab(3,5) show False by simp
qed

lemma claimed_id_eligible: "claimed_id x db = Some i \<Longrightarrow> eligible db i"
proof (cases x)
  case ClaimNext
  assume c: "claimed_id x db = Some i"
  show ?thesis
  proof (cases db rule: getPendingMatch_cases)
    case none
    with c ClaimNext show ?thesis by simp
  next
    case (some r)
    with c ClaimNext have "i = job_id r" by (simp add: select_row_def)
    with some show ?thesis by (auto simp: eligible_def)
  qed
qed simp_all

lemma run_claims_parked:
  "distinct (map job_id db) \<Longrightarrow> parked db i \<Longrightarrow> i \<notin> set (run_claims ops db)"
proof (induction ops arbitrary: db)
  case Nil
  show ?case by simp
next
  case (Cons x ops)
  have "claimed_id x db \<noteq> Some i"
    using claimed_id_eligible parked_not_eligible[OF Cons.prems] by blast
  moreover have "i \<notin> set (run_claims ops (apply_op x db))"
    by (rule Cons.IH[OF distinct_apply_op[OF Cons.prems(1)] parked_apply_op[OF Cons.prems(2)]])
  ultimately show ?case by (auto split: option.splits)
qed

lemma set_status_other: "m \<in> set db \<Longrightarrow> job_id m \<noteq> i \<Longrightarrow> m \<in> set (set_status i s db)"
  by (force simp: set_status_def)

lemma apply_op_other:
  assumes "m \<in> set db" "target x \<noteq> Some (job_id m)" "claimed_id x db \<noteq> Some (job_id m)"
  shows "m \<in> set (apply_op x db)"
proof (cases x)
  case ClaimNext
  show ?thesis
  proof (cases db rule: getPendingMatch_cases)
    case none
    with ClaimNext assms show ?thesis by simp
  next
    case (some r)
    with ClaimNext assms(3) have "job_id m \<noteq> job_id r" by (simp add: select_row_def)
    with some ClaimNext show ?thesis by (simp add: set_status_other[OF assms(1)])
  qed
next
  case (MarkDownloaded i p)
  with assms show ?thesis by (force simp: markDownloaded_def)
next
  case (MarkError i)
  with assms show ?thesis by (simp add: markError_def set_status_other)
next
  case (MarkPending i)
  with assms show ?thesis by (simp add: markPending_def set_status_other)
next
  case (MarkTipSent i)
  with assms show ?thesis by (force simp: markTipSent_def)
next
  case (InsertJob i code u)
  with assms show ?thesis by simp
qed

lemma run_keeps_parked:
  "distinct (map job_id db) \<Longrightarrow> parked db (job_id m) \<Longrightarrow> m \<in> set db \<Longrightarrow>
   \<forall>x\<in>set ops. target x \<noteq> Some (job_id m) \<Longrightarrow> m \<in> set (run ops db)"
proof (induction ops arbitrary: db)
  case Nil
  then show ?case by simp
next
  case (Cons x ops)
  have "claimed_id x db \<noteq> Some (job_id m)"
    using claimed_id_eligible parked_not_eligible[OF Cons.prems(1,2)] by blast
  then have "m \<in> set (apply_op x db)"
    using Cons.prems(3,4) by (simp add: apply_op_other)
  then show ?case
    using Cons.IH[OF distinct_apply_op[OF Cons.prems(1)] parked_apply_op[OF Cons.prems(2)]] Cons.prems(4)
    by simp
qed

lemma eligible_iff:
  assumes "distinct (map job_id db)" "m \<in> set db"
  shows "eligible db (job_id m) \<longleftrightarrow>
           status m = Pending \<and> user_id m \<noteq> None \<and>
           (\<forall>m2\<in>set db. user_id m2 = user_id m \<longrightarrow> job_id m2 \<le> job_id m)"
proof -
  have "eligible db (job_id m) \<longleftrightarrow> pending_where db m"
  proof
    assume "eligible db (job_id m)"
    then obtain r where r: "r \<in> set db" "job_id r = job_id m" "pending_where db r"
      by (auto simp: eligible_def)
    with assms have "r = m" by (metis distinct_map inj_on_def)
    with r(3) show "pending_where db m" by simp
  next
    assume "pending_where db m"
    with assms(2) show "eligible db (job_id m)" by (auto simp: eligible_def)
  qed
  also have "\<dots> \<longleftrightarrow> status m = Pending \<and> latest_of_user db m"
    by (rule pending_where_latest[OF assms(2)])
  also have "latest_of_user db m \<longleftrightarrow>
               user_id m \<noteq> None \<and> (\<forall>m2\<in>set db. user_id m2 = user_id m \<longrightarrow> job_id m2 \<le> job_id m)"
    by (auto simp: latest_of_user_def keys_def)
  finally show ?thesis .
qed

text \<open>
  Claim C1, as the code has it. A job is eligible for \<^verbatim>\<open>getPendingMatch\<close> exactly
  when it is pending and carries the highest id among all rows of its user,
  whatever their status. So a job that has a newer job of the same user beside
  it is not eligible, whatever the status of the newer job: in every run of
  store operations it is never returned by \<^verbatim>\<open>getPendingMatch\<close>, and as long
  as no statement names its id its row stays as it is (pending).
\<close>

theorem parked_job_never_claimed:
  assumes "distinct (map job_id db)" and "m \<in> set db"
  shows "(eligible db (job_id m) \<longleftrightarrow>
            status m = Pending \<and> user_id m \<noteq> None \<and>
            (\<forall>m2\<in>set db. user_id m2 = user_id m \<longrightarrow> job_id m2 \<le> job_id m)) \<and>
         (m2 \<in> set db \<and> user_id m2 = user_id m \<and> job_id m < job_id m2 \<longrightarrow>
            \<not> eligible db (job_id m) \<and>
            job_id m \<notin> set (run_claims ops db) \<and>
            ((\<forall>x\<in>set ops. target x \<noteq> Some (job_id m)) \<longrightarrow> m \<in> set (run ops db)))"
proof (intro conjI impI)
  show "eligible db (job_id m) \<longleftrightarrow>
            status m = Pending \<and> user_id m \<noteq> None \<and>
            (\<forall>m2\<in>set db. user_id m2 = user_id m \<longrightarrow> job_id m2 \<le> job_id m)"
    by (rule eligible_iff[OF assms])
next
  assume h: "m2 \<in> set db \<and> user_id m2 = user_id m \<and> job_id m < job_id m2"
  then have p: "parked db (job_id m)" using assms(2) by (auto simp: parked_def)
  show "\<not> eligible db (job_id m)" by (rule parked_not_eligible[OF assms(1) p])
  show "job_id m \<notin> set (run_claims ops db)" by (rule run_claims_parked[OF assms(1) p])
  assume "\<forall>x\<in>set ops. target x \<noteq> Some (job_id m)"
  then show "m \<in> set (run ops db)" by (rule run_keeps_parked[OF assms(1) p assms(2)])
qed

lemma latest_of_user_keys: "keys db' = keys db \<Longrightarrow> latest_of_user db' m = latest_of_user db m"
  by (simp add: latest_of_user_def)

lemma latest_of_user_status [simp]: "latest_of_user db (m\<lparr>status := s\<rparr>) = latest_of_user db m"
  by (simp add: latest_of_user_def)

lemma processing_latest_map:
  assumes "processing_latest db"
    and "\<And>m. m \<in> set db \<Longrightarrow> job_id (f m) = job_id m \<and> user_id (f m) = user_id m"
    and "\<And>m. m \<in> set db \<Longrightarrow> status (f m) = Processing \<Longrightarrow> latest_of_user db m"
  shows "processing_latest (map f db)"
proof -
  have k: "keys (map f db) = keys db"
    using assms(2) by (simp add: keys_def)
  have ids: "map job_id (map f db) = map job_id db"
    using assms(2) by simp
  have "latest_of_user (map f db) (f m)" if "m \<in> set db" "status (f m) = Processing" for m
    using assms(2)[OF that(1)] assms(3)[OF that] by (simp add: latest_of_user_def k)
  then have "\<forall>m'\<in>set (map f db). status m' = Processing \<longrightarrow> latest_of_user (map f db) m'"
    by auto
  moreover have "distinct (map job_id (map f db))"
    using assms(1) unfolding ids by (simp add: processing_latest_def)
  ultimately show ?thesis unfolding processing_latest_def by blast
qed

lemma processing_latest_claim:
  assumes "processing_latest db"
  shows "processing_latest (apply_op ClaimNext db)"
proof (cases db rule: getPendingMatch_cases)
  case none
  with assms show ?thesis by simp
next
  case (some r)
  have d: "distinct (map job_id db)" using assms by (simp add: processing_latest_def)
  have "processing_latest (map (\<lambda>m. if job_id m = job_id r then m\<lparr>status := Processing\<rparr> else m) db)"
  proof (rule processing_latest_map[OF assms])
    fix m assume m: "m \<in> set db"
    show "job_id (if job_id m = job_id r then m\<lparr>status := Processing\<rparr> else m) = job_id m \<and>
          user_id (if job_id m = job_id r then m\<lparr>status := Processing\<rparr> else m) = user_id m"
      by simp
    assume p: "status (if job_id m = job_id r then m\<lparr>status := Processing\<rparr> else m) = Processing"
    show "latest_of_user db m"
    proof (cases "job_id m = job_id r")
      case True
      with d m some(2) have "m = r" by (metis distinct_map inj_on_def)
      with some(2,3) show ?thesis by (simp add: pending_where_latest)
    next
      case False
      with p m assms show ?thesis by (simp add: processing_latest_def)
    qed
  qed
  with some show ?thesis by (simp add: set_status_def)
qed

lemma processing_latest_unset:
  assumes "processing_latest db" "\<And>m. status (g m) \<noteq> Processing"
    "\<And>m. job_id (g m) = job_id m \<and> user_id (g m) = user_id m"
  shows "processing_latest (map (\<lambda>m. if job_id m = i then g m else m) db)"
proof (rule processing_latest_map[OF assms(1)])
  fix m assume m: "m \<in> set db"
  show "job_id (if job_id m = i then g m else m) = job_id m \<and>
        user_id (if job_id m = i then g m else m) = user_id m"
    using assms(3) by simp
  assume "status (if job_id m = i then g m else m) = Processing"
  with assms(2) have "status m = Processing" by (simp split: if_splits)
  with m assms(1) show "latest_of_user db m" by (simp add: processing_latest_def)
qed

lemma processing_latest_insert:
  assumes "processing_latest db" "\<forall>m\<in>set db. job_id m < i" "user_idle db i u"
  shows "processing_latest (apply_op (InsertJob i code u) db)"
proof -
  have fresh: "i \<notin> set (map job_id db)" using assms(2) by auto
  have "latest_of_user (db @ [new_job i code u]) m" if m: "m \<in> set db" "status m = Processing" for m
  proof -
    from m assms(1) have l: "latest_of_user db m" by (simp add: processing_latest_def)
    from m assms(3) have "user_id m \<noteq> Some u" by (auto simp: user_idle_def)
    with l show ?thesis by (auto simp: latest_of_user_def keys_def new_job_def)
  qed
  moreover have "status (new_job i code u) \<noteq> Processing" by (simp add: new_job_def)
  moreover have "distinct (map job_id (db @ [new_job i code u]))"
    using assms(1) fresh by (simp add: processing_latest_def new_job_def)
  ultimately show ?thesis using fresh by (auto simp: processing_latest_def)
qed

lemma reachable_processing_latest: "reachable user_idle db \<Longrightarrow> processing_latest db"
proof (induction rule: reachable.induct)
  case empty
  show ?case by (simp add: processing_latest_def)
next
  case (insert db i u code)
  then show ?case by (simp only: processing_latest_insert)
next
  case (claim db)
  show ?case by (rule processing_latest_claim[OF claim.IH])
next
  case (downloaded db i p)
  have "processing_latest (map (\<lambda>m. if job_id m = i then m\<lparr>status := Downloaded, file_path := Some p\<rparr> else m) db)"
    by (rule processing_latest_unset[OF downloaded.IH]) simp_all
  then show ?case by (simp add: markDownloaded_def)
next
  case (error db i)
  have "processing_latest (map (\<lambda>m. if job_id m = i then m\<lparr>status := Error\<rparr> else m) db)"
    by (rule processing_latest_unset[OF error.IH]) simp_all
  then show ?case by (simp add: markError_def set_status_def)
next
  case (pending db i)
  have "processing_latest (map (\<lambda>m. if job_id m = i then m\<lparr>status := Pending\<rparr> else m) db)"
    by (rule processing_latest_unset[OF pending.IH]) simp_all
  then show ?case by (simp add: markPending_def set_status_def)
next
  case (tip_sent db i)
  have "processing_latest (map (\<lambda>m. if job_id m = i then m\<lparr>status := Notified, tip_sent := Some True\<rparr> else m) db)"
    by (rule processing_latest_unset[OF tip_sent.IH]) simp_all
  then show ?case by (simp add: markTipSent_def)
qed

lemma processing_latest_one: 
  assumes "processing_latest db" shows "one_processing_per_user db"
  unfolding one_processing_per_user_def
proof (intro ballI impI)
  fix m m' assume m: "m \<in> set db" "m' \<in> set db"
    and h: "status m = Processing \<and> status m' = Processing \<and> sql_eq (user_id m) (user_id m')"
  from h have u: "user_id m = user_id m'" by (auto simp: sql_eq_iff)
  from assms m h have "latest_of_user db m" "latest_of_user db m'"
    by (simp_all add: processing_latest_def)
  with keys_mem[OF m(1)] keys_mem[OF m(2)] u show "job_id m = job_id m'"
    by (fastforce simp: latest_of_user_def)
qed

lemma claim_after_insert:
  assumes "\<forall>m\<in>set db. job_id m < i"
  shows "getPendingMatch (db @ [new_job i code u]) =
           (Some (select_row (new_job i code u)), db @ [(new_job i code u)\<lparr>status := Processing\<rparr>])"
proof -
  let ?n = "new_job i code u"
  let ?db = "db @ [?n]"
  have n: "job_id ?n = i" "user_id ?n = Some u" "status ?n = Pending" by (simp_all add: new_job_def)
  have "latest_of_user ?db ?n"
    using assms by (auto simp: latest_of_user_def keys_def n)
  then have p: "pending_where ?db ?n" by (simp add: pending_where_latest n)
  have s: "set_status i Processing ?db = db @ [?n\<lparr>status := Processing\<rparr>]"
  proof -
    have "map (\<lambda>m. if job_id m = i then m\<lparr>status := Processing\<rparr> else m) db = map (\<lambda>m. m) db"
      by (rule map_cong) (use assms in auto)
    then show ?thesis by (simp add: set_status_def n)
  qed
  show ?thesis
  proof (cases ?db rule: getPendingMatch_cases)
    case none
    with p show ?thesis by (simp add: pending_cte_None)
  next
    case (some r)
    from some(4) p have "i \<le> job_id r" by (auto simp: n)
    with some(2) assms have "r = ?n" by auto
    with some(5) s show ?thesis by (simp add: n)
  qed
qed

lemma second_claim:
  assumes "\<forall>m\<in>set db. job_id m < i" "\<not> user_idle db i u"
  shows "claimed_id ClaimNext (apply_op (InsertJob i code u) db) = Some i"
    "\<not> one_processing_per_user (run [InsertJob i code u, ClaimNext] db)"
proof -
  have fresh: "i \<notin> set (map job_id db)" using assms(1) by auto
  have g: "getPendingMatch (db @ [new_job i code u]) =
           (Some (select_row (new_job i code u)), db @ [(new_job i code u)\<lparr>status := Processing\<rparr>])"
    by (rule claim_after_insert[OF assms(1)])
  show "claimed_id ClaimNext (apply_op (InsertJob i code u) db) = Some i"
    using fresh g by (simp add: select_row_def new_job_def)
  from assms(2) obtain m where m: "m \<in> set db" "user_id m = Some u" "status m = Processing"
    by (auto simp: user_idle_def)
  with assms(1) have ne: "job_id m \<noteq> i" by auto
  have "\<not> one_processing_per_user (db @ [(new_job i code u)\<lparr>status := Processing\<rparr>])"
  proof
    let ?n = "(new_job i code u)\<lparr>status := Processing\<rparr>"
    assume o: "one_processing_per_user (db @ [?n])"
    have "m \<in> set (db @ [?n])" "?n \<in> set (db @ [?n])" using m(1) by simp_all
    moreover have "status m = Processing \<and> status ?n = Processing \<and> sql_eq (user_id m) (user_id ?n)"
      using m by (simp add: new_job_def sql_eq_def)
    ultimately have "job_id m = job_id ?n"
      using o unfolding one_processing_per_user_def by blast
    with ne show False by (simp add: new_job_def)
  qed
  then show "\<not> one_processing_per_user (run [InsertJob i code u, ClaimNext] db)"
    using fresh g by simp
qed

text \<open>
  Claim C2, as the code has it. In every table reached by the store operations
  where a job is inserted for a user only while that user has no processing
  job, at most one job per user is processing: a processing job is always the
  latest job of its user. The restriction on insertions is needed at every such
  table: when a job is inserted for a user who has a processing job, the next
  call of \<^verbatim>\<open>getPendingMatch\<close> returns the new job, and the user then has two
  processing jobs.
\<close>

theorem one_processing_job_per_idle_user:
  assumes "reachable user_idle db"
  shows "one_processing_per_user db \<and> distinct (map job_id db) \<and>
         (\<forall>m\<in>set db. status m = Processing \<longrightarrow> latest_of_user db m) \<and>
         ((\<forall>m\<in>set db. job_id m < i) \<and> \<not> user_idle db i u \<longrightarrow>
            claimed_id ClaimNext (apply_op (InsertJob i code u) db) = Some i \<and>
            \<not> one_processing_per_user (run [InsertJob i code u, ClaimNext] db))"
  using reachable_processing_latest[OF assms] processing_latest_one second_claim[of db i u code]
  by (auto simp: processing_latest_def)

lemma set_status_nth:
  assumes "distinct (map job_id db)" "k < length db"
  shows "set_status (job_id (db ! k)) s db = db[k := (db ! k)\<lparr>status := s\<rparr>]"
proof (rule nth_equalityI)
  show "length (set_status (job_id (db ! k)) s db) = length (db[k := (db ! k)\<lparr>status := s\<rparr>])"
    by (simp add: set_status_def)
next
  fix j assume "j < length (set_status (job_id (db ! k)) s db)"
  then have j: "j < length db" by (simp add: set_status_def)
  have "job_id (db ! j) = job_id (db ! k) \<longleftrightarrow> j = k"
    using assms j nth_eq_iff_index_eq[of "map job_id db" j k] by simp
  then show "set_status (job_id (db ! k)) s db ! j = db[k := (db ! k)\<lparr>status := s\<rparr>] ! j"
    using j assms(2) by (auto simp: set_status_def nth_list_update)
qed

lemma pending_where_highest_pending:
  "pending_where db m \<Longrightarrow> highest_pending_of_user db m"
  unfolding pending_where_iff highest_pending_of_user_def by blast

lemma getPendingMatch_some:
  assumes d: "distinct (map job_id db)" and g: "getPendingMatch db = (Some r, db')"
  shows "\<exists>k<length db. r = select_row (db ! k) \<and> pending_where db (db ! k) \<and>
           highest_pending_of_user db (db ! k) \<and>
           (\<forall>m\<in>set db. pending_where db m \<longrightarrow> job_id m \<le> job_id (db ! k)) \<and>
           db' = db[k := (db ! k)\<lparr>status := Processing\<rparr>]"
proof (cases db rule: getPendingMatch_cases)
  case none
  with g show ?thesis by simp
next
  case (some w)
  from some(2) obtain k where k: "k < length db" "db ! k = w"
    by (auto simp: in_set_conv_nth)
  have "db' = set_status (job_id (db ! k)) Processing db" "r = select_row (db ! k)"
    using some(5) g k by simp_all
  with set_status_nth[OF d k(1)] some(3,4) k pending_where_highest_pending[OF some(3)]
  show ?thesis by auto
qed

lemma getPendingMatch_none:
  "fst (getPendingMatch db) = None \<longleftrightarrow> (\<forall>m\<in>set db. \<not> pending_where db m)"
  by (cases db rule: getPendingMatch_cases) (auto simp: pending_cte_None)

lemma getPendingMatch_none_unchanged:
  "fst (getPendingMatch db) = None \<Longrightarrow> snd (getPendingMatch db) = db"
  by (cases db rule: getPendingMatch_cases) auto

lemma two_pending_jobs:
  assumes d: "distinct (map job_id db)"
    and ab: "a \<in> set db" "b \<in> set db" "job_id a = 10" "job_id b = 12"
      "status a = Pending" "status b = Pending" "user_id a = Some u" "user_id b = Some u"
    and only: "\<forall>m\<in>set db. user_id m = Some u \<longrightarrow> m = a \<or> m = b"
  shows "pending_where db b" "\<not> pending_where db a"
    "a \<in> set (snd (getPendingMatch db))"
    "\<forall>r. fst (getPendingMatch db) = Some r \<and> row_user_id r = Some u \<longrightarrow> r = select_row b"
    "(\<forall>m\<in>set db. pending_where db m \<longrightarrow> job_id m \<le> 12) \<longrightarrow>
       getPendingMatch db = (Some (select_row b), set_status 12 Processing db)"
proof -
  have lb: "latest_of_user db b"
    using ab only by (auto simp: latest_of_user_def keys_def)
  then show pb: "pending_where db b" using ab by (simp add: pending_where_latest)
  have "\<not> latest_of_user db a"
    using ab keys_mem[OF ab(2)] by (force simp: latest_of_user_def)
  then show pa: "\<not> pending_where db a" using ab by (simp add: pending_where_latest)
  show "a \<in> set (snd (getPendingMatch db))"
  proof (cases db rule: getPendingMatch_cases)
    case none
    with ab show ?thesis by simp
  next
    case (some r)
    with pa have "job_id a \<noteq> job_id r" using d ab(1) by (metis distinct_map inj_on_def)
    with some ab(1) show ?thesis by (simp add: set_status_other)
  qed
  show "\<forall>r. fst (getPendingMatch db) = Some r \<and> row_user_id r = Some u \<longrightarrow> r = select_row b"
  proof (cases db rule: getPendingMatch_cases)
    case none
    then show ?thesis by simp
  next
    case (some w)
    show ?thesis
    proof (intro allI impI)
      fix r assume "fst (getPendingMatch db) = Some r \<and> row_user_id r = Some u"
      then have "Some r = Some (select_row w)" "row_user_id r = Some u" using some(5) by simp_all
      then have r: "r = select_row w" "user_id w = Some u" by (auto simp: select_row_def)
      with only some(2) pa some(3) have "w = b" by auto
      with r show "r = select_row b" by simp
    qed
  qed
  show "(\<forall>m\<in>set db. pending_where db m \<longrightarrow> job_id m \<le> 12) \<longrightarrow>
       getPendingMatch db = (Some (select_row b), set_status 12 Processing db)"
  proof
    assume top: "\<forall>m\<in>set db. pending_where db m \<longrightarrow> job_id m \<le> 12"
    show "getPendingMatch db = (Some (select_row b), set_status 12 Processing db)"
    proof (cases db rule: getPendingMatch_cases)
      case none
      with pb ab(2) show ?thesis by (simp add: pending_cte_None)
    next
      case (some w)
      with top pb ab have "job_id w = job_id b" by fastforce
      with d some(2) ab(2) have "w = b" by (metis distinct_map inj_on_def)
      with some ab show ?thesis by simp
    qed
  qed
qed

lemma pending_where_explicit:
  assumes "m \<in> set db"
  shows "pending_where db m \<longleftrightarrow>
           status m = Pending \<and> user_id m \<noteq> None \<and>
           (\<forall>m2\<in>set db. user_id m2 = user_id m \<longrightarrow> job_id m2 \<le> job_id m)"
  unfolding pending_where_latest[OF assms] by (auto simp: latest_of_user_def keys_def)

text \<open>
  Claim C3, as the code has it. A candidate of \<^verbatim>\<open>getPendingMatch\<close> is a pending
  job of a user that carries the highest id among all jobs of that user,
  whatever their status. When \<^verbatim>\<open>getPendingMatch\<close> returns a row, the row is the
  candidate with the greatest id, so it is the highest-id pending job of its
  user, and the table after differs from the table before in that one row, now
  \<^verbatim>\<open>processing\<close>. It returns nothing exactly when there is no candidate (in
  particular when no user has a pending job), and then the table is unchanged.
  For a user whose only jobs are two pending jobs with ids 10 and 12, a row is
  returned and it is not job 10, job 10 is left as it is, a returned row of
  that user is job 12, and job 12 is the returned row when no candidate has a
  greater id.
\<close>

theorem getPendingMatch_claims_one_row:
  assumes "distinct (map job_id db)"
  shows "(\<forall>r db'. getPendingMatch db = (Some r, db') \<longrightarrow>
            (\<exists>k<length db. r = select_row (db ! k) \<and>
               status (db ! k) = Pending \<and> user_id (db ! k) \<noteq> None \<and>
               (\<forall>m2\<in>set db. user_id m2 = user_id (db ! k) \<longrightarrow> job_id m2 \<le> job_id (db ! k)) \<and>
               highest_pending_of_user db (db ! k) \<and>
               (\<forall>m\<in>set db. status m = Pending \<and> user_id m \<noteq> None \<and>
                   (\<forall>m2\<in>set db. user_id m2 = user_id m \<longrightarrow> job_id m2 \<le> job_id m)
                   \<longrightarrow> job_id m \<le> job_id (db ! k)) \<and>
               db' = db[k := (db ! k)\<lparr>status := Processing\<rparr>])) \<and>
         (fst (getPendingMatch db) = None \<longleftrightarrow>
            (\<forall>m\<in>set db. \<not> (status m = Pending \<and> user_id m \<noteq> None \<and>
                (\<forall>m2\<in>set db. user_id m2 = user_id m \<longrightarrow> job_id m2 \<le> job_id m)))) \<and>
         (fst (getPendingMatch db) = None \<longrightarrow> snd (getPendingMatch db) = db) \<and>
         ((\<forall>m\<in>set db. \<not> highest_pending_of_user db m) \<longrightarrow> fst (getPendingMatch db) = None) \<and>
         (a \<in> set db \<and> b \<in> set db \<and> job_id a = 10 \<and> job_id b = 12 \<and>
          status a = Pending \<and> status b = Pending \<and> user_id a = Some u \<and> user_id b = Some u \<and>
          (\<forall>m\<in>set db. user_id m = Some u \<longrightarrow> m = a \<or> m = b) \<longrightarrow>
            fst (getPendingMatch db) \<noteq> None \<and>
            fst (getPendingMatch db) \<noteq> Some (select_row a) \<and>
            a \<in> set (snd (getPendingMatch db)) \<and>
            (\<forall>r. fst (getPendingMatch db) = Some r \<and> row_user_id r = Some u \<longrightarrow> r = select_row b) \<and>
            ((\<forall>m\<in>set db. status m = Pending \<and> user_id m \<noteq> None \<and>
                 (\<forall>m2\<in>set db. user_id m2 = user_id m \<longrightarrow> job_id m2 \<le> job_id m)
                 \<longrightarrow> job_id m \<le> 12) \<longrightarrow>
               getPendingMatch db = (Some (select_row b), set_status 12 Processing db)))"
proof (intro conjI)
  have pw: "\<And>m. m \<in> set db \<Longrightarrow> pending_where db m \<longleftrightarrow>
           status m = Pending \<and> user_id m \<noteq> None \<and>
           (\<forall>m2\<in>set db. user_id m2 = user_id m \<longrightarrow> job_id m2 \<le> job_id m)"
    by (rule pending_where_explicit)
  show "\<forall>r db'. getPendingMatch db = (Some r, db') \<longrightarrow>
            (\<exists>k<length db. r = select_row (db ! k) \<and>
               status (db ! k) = Pending \<and> user_id (db ! k) \<noteq> None \<and>
               (\<forall>m2\<in>set db. user_id m2 = user_id (db ! k) \<longrightarrow> job_id m2 \<le> job_id (db ! k)) \<and>
               highest_pending_of_user db (db ! k) \<and>
               (\<forall>m\<in>set db. status m = Pending \<and> user_id m \<noteq> None \<and>
                   (\<forall>m2\<in>set db. user_id m2 = user_id m \<longrightarrow> job_id m2 \<le> job_id m)
                   \<longrightarrow> job_id m \<le> job_id (db ! k)) \<and>
               db' = db[k := (db ! k)\<lparr>status := Processing\<rparr>])"
  proof (intro allI impI)
    fix r db' assume "getPendingMatch db = (Some r, db')"
    from getPendingMatch_some[OF assms this]
    obtain k where k: "k < length db" "r = select_row (db ! k)" "pending_where db (db ! k)"
      "highest_pending_of_user db (db ! k)"
      "\<forall>m\<in>set db. pending_where db m \<longrightarrow> job_id m \<le> job_id (db ! k)"
      "db' = db[k := (db ! k)\<lparr>status := Processing\<rparr>]"
      by blast
    have mem: "db ! k \<in> set db" using k(1) by simp
    have 1: "status (db ! k) = Pending \<and> user_id (db ! k) \<noteq> None \<and>
          (\<forall>m2\<in>set db. user_id m2 = user_id (db ! k) \<longrightarrow> job_id m2 \<le> job_id (db ! k))"
      using k(3) pw[OF mem] by blast
    have 2: "\<forall>m\<in>set db. status m = Pending \<and> user_id m \<noteq> None \<and>
                   (\<forall>m2\<in>set db. user_id m2 = user_id m \<longrightarrow> job_id m2 \<le> job_id m)
                   \<longrightarrow> job_id m \<le> job_id (db ! k)"
      using k(5) pw by blast
    from k(1,2,4,6) 1 2
    show "\<exists>k<length db. r = select_row (db ! k) \<and>
               status (db ! k) = Pending \<and> user_id (db ! k) \<noteq> None \<and>
               (\<forall>m2\<in>set db. user_id m2 = user_id (db ! k) \<longrightarrow> job_id m2 \<le> job_id (db ! k)) \<and>
               highest_pending_of_user db (db ! k) \<and>
               (\<forall>m\<in>set db. status m = Pending \<and> user_id m \<noteq> None \<and>
                   (\<forall>m2\<in>set db. user_id m2 = user_id m \<longrightarrow> job_id m2 \<le> job_id m)
                   \<longrightarrow> job_id m \<le> job_id (db ! k)) \<and>
               db' = db[k := (db ! k)\<lparr>status := Processing\<rparr>]"
      by blast
  qed
  show "fst (getPendingMatch db) = None \<longleftrightarrow>
            (\<forall>m\<in>set db. \<not> (status m = Pending \<and> user_id m \<noteq> None \<and>
                (\<forall>m2\<in>set db. user_id m2 = user_id m \<longrightarrow> job_id m2 \<le> job_id m)))"
    unfolding getPendingMatch_none using pw by blast
  show "fst (getPendingMatch db) = None \<longrightarrow> snd (getPendingMatch db) = db"
    using getPendingMatch_none_unchanged by blast
  show "(\<forall>m\<in>set db. \<not> highest_pending_of_user db m) \<longrightarrow> fst (getPendingMatch db) = None"
    unfolding getPendingMatch_none using pending_where_highest_pending by blast
  show "a \<in> set db \<and> b \<in> set db \<and> job_id a = 10 \<and> job_id b = 12 \<and>
          status a = Pending \<and> status b = Pending \<and> user_id a = Some u \<and> user_id b = Some u \<and>
          (\<forall>m\<in>set db. user_id m = Some u \<longrightarrow> m = a \<or> m = b) \<longrightarrow>
            fst (getPendingMatch db) \<noteq> None \<and>
            fst (getPendingMatch db) \<noteq> Some (select_row a) \<and>
            a \<in> set (snd (getPendingMatch db)) \<and>
            (\<forall>r. fst (getPendingMatch db) = Some r \<and> row_user_id r = Some u \<longrightarrow> r = select_row b) \<and>
            ((\<forall>m\<in>set db. status m = Pending \<and> user_id m \<noteq> None \<and>
                 (\<forall>m2\<in>set db. user_id m2 = user_id m \<longrightarrow> job_id m2 \<le> job_id m)
                 \<longrightarrow> job_id m \<le> 12) \<longrightarrow>
               getPendingMatch db = (Some (select_row b), set_status 12 Processing db))"
  proof
    assume h: "a \<in> set db \<and> b \<in> set db \<and> job_id a = 10 \<and> job_id b = 12 \<and>
          status a = Pending \<and> status b = Pending \<and> user_id a = Some u \<and> user_id b = Some u \<and>
          (\<forall>m\<in>set db. user_id m = Some u \<longrightarrow> m = a \<or> m = b)"
    then have t: "pending_where db b" "\<not> pending_where db a"
      "a \<in> set (snd (getPendingMatch db))"
      "\<forall>r. fst (getPendingMatch db) = Some r \<and> row_user_id r = Some u \<longrightarrow> r = select_row b"
      "(\<forall>m\<in>set db. pending_where db m \<longrightarrow> job_id m \<le> 12) \<longrightarrow>
         getPendingMatch db = (Some (select_row b), set_status 12 Processing db)"
      using two_pending_jobs[OF assms, of a b u] by blast+
    have 1: "fst (getPendingMatch db) \<noteq> None"
      unfolding getPendingMatch_none using t(1) h by blast
    have "select_row a \<noteq> select_row b" using h by (auto simp: select_row_def)
    moreover have "row_user_id (select_row a) = Some u" using h by (simp add: select_row_def)
    ultimately have 2: "fst (getPendingMatch db) \<noteq> Some (select_row a)" using t(4) by blast
    have 3: "(\<forall>m\<in>set db. status m = Pending \<and> user_id m \<noteq> None \<and>
                 (\<forall>m2\<in>set db. user_id m2 = user_id m \<longrightarrow> job_id m2 \<le> job_id m)
                 \<longrightarrow> job_id m \<le> 12) \<longrightarrow>
               getPendingMatch db = (Some (select_row b), set_status 12 Processing db)"
      using t(5) pw by blast
    from 1 2 3 t(3,4)
    show "fst (getPendingMatch db) \<noteq> None \<and>
            fst (getPendingMatch db) \<noteq> Some (select_row a) \<and>
            a \<in> set (snd (getPendingMatch db)) \<and>
            (\<forall>r. fst (getPendingMatch db) = Some r \<and> row_user_id r = Some u \<longrightarrow> r = select_row b) \<and>
            ((\<forall>m\<in>set db. status m = Pending \<and> user_id m \<noteq> None \<and>
                 (\<forall>m2\<in>set db. user_id m2 = user_id m \<longrightarrow> job_id m2 \<le> job_id m)
                 \<longrightarrow> job_id m \<le> 12) \<longrightarrow>
               getPendingMatch db = (Some (select_row b), set_status 12 Processing db))"
      by blast
  qed
qed

text \<open>
  Claim C1 as stated fails. A user has the pending jobs 10 and 12; job 12 is
  claimed and then marked downloaded, so it has left \<^verbatim>\<open>pending\<close>. Job 10 is
  still pending and is now the highest-id pending job of the user, but it does
  not pass the claim query and \<^verbatim>\<open>getPendingMatch\<close> returns nothing.
\<close>

theorem parked_job_dropped_counterexample:
  "status_of (run [InsertJob 10 ''CSGO-a'' ''u1'', InsertJob 12 ''CSGO-b'' ''u1'', ClaimNext,
                   MarkDownloaded 12 ''downloads/match_12.dem''] []) 10 = Some Pending \<and>
   status_of (run [InsertJob 10 ''CSGO-a'' ''u1'', InsertJob 12 ''CSGO-b'' ''u1'', ClaimNext,
                   MarkDownloaded 12 ''downloads/match_12.dem''] []) 12 = Some Downloaded \<and>
   \<not> eligible (run [InsertJob 10 ''CSGO-a'' ''u1'', InsertJob 12 ''CSGO-b'' ''u1'', ClaimNext,
                   MarkDownloaded 12 ''downloads/match_12.dem''] []) 10 \<and>
   fst (getPendingMatch (run [InsertJob 10 ''CSGO-a'' ''u1'', InsertJob 12 ''CSGO-b'' ''u1'', ClaimNext,
                   MarkDownloaded 12 ''downloads/match_12.dem''] [])) = None"
  by code_simp

text \<open>The theorem for claim C1 at the same two jobs.\<close>

theorem parked_job_never_claimed_witness:
  "distinct (map job_id [new_job 10 ''CSGO-a'' ''u1'', new_job 12 ''CSGO-b'' ''u1'']) \<and>
   user_id (new_job 12 ''CSGO-b'' ''u1'') = user_id (new_job 10 ''CSGO-a'' ''u1'') \<and>
   job_id (new_job 10 ''CSGO-a'' ''u1'') < job_id (new_job 12 ''CSGO-b'' ''u1'') \<and>
   \<not> eligible [new_job 10 ''CSGO-a'' ''u1'', new_job 12 ''CSGO-b'' ''u1''] 10 \<and>
   eligible [new_job 10 ''CSGO-a'' ''u1'', new_job 12 ''CSGO-b'' ''u1''] 12 \<and>
   10 \<notin> set (run_claims [ClaimNext, MarkError 12, ClaimNext]
                 [new_job 10 ''CSGO-a'' ''u1'', new_job 12 ''CSGO-b'' ''u1'']) \<and>
   new_job 10 ''CSGO-a'' ''u1'' \<in> set (run [ClaimNext, MarkError 12, ClaimNext]
                 [new_job 10 ''CSGO-a'' ''u1'', new_job 12 ''CSGO-b'' ''u1''])"
  using parked_job_never_claimed[of "[new_job 10 ''CSGO-a'' ''u1'', new_job 12 ''CSGO-b'' ''u1'']"
      "new_job 10 ''CSGO-a'' ''u1''" "new_job 12 ''CSGO-b'' ''u1''" "[ClaimNext, MarkError 12, ClaimNext]"]
    parked_job_never_claimed[of "[new_job 10 ''CSGO-a'' ''u1'', new_job 12 ''CSGO-b'' ''u1'']"
      "new_job 12 ''CSGO-b'' ''u1''" "new_job 12 ''CSGO-b'' ''u1''" "[]"]
  by (simp add: new_job_def)

text \<open>
  Claim C2 as stated fails. Job 12 of a user is claimed; job 13 of the same user
  is inserted while job 12 is processing; the next claim returns job 13, and
  both jobs are processing.
\<close>

theorem second_processing_job_counterexample:
  "reachable any_time (run [InsertJob 12 ''CSGO-b'' ''u1'', ClaimNext,
                            InsertJob 13 ''CSGO-c'' ''u1'', ClaimNext] []) \<and>
   status_of (run [InsertJob 12 ''CSGO-b'' ''u1'', ClaimNext,
                   InsertJob 13 ''CSGO-c'' ''u1'', ClaimNext] []) 12 = Some Processing \<and>
   status_of (run [InsertJob 12 ''CSGO-b'' ''u1'', ClaimNext,
                   InsertJob 13 ''CSGO-c'' ''u1'', ClaimNext] []) 13 = Some Processing \<and>
   \<not> one_processing_per_user (run [InsertJob 12 ''CSGO-b'' ''u1'', ClaimNext,
                   InsertJob 13 ''CSGO-c'' ''u1'', ClaimNext] [])"
proof -
  let ?d1 = "apply_op (InsertJob 12 ''CSGO-b'' ''u1'') []"
  let ?d2 = "apply_op ClaimNext ?d1"
  let ?d3 = "apply_op (InsertJob 13 ''CSGO-c'' ''u1'') ?d2"
  let ?d4 = "apply_op ClaimNext ?d3"
  have r1: "reachable any_time ?d1"
    by (rule reachable.insert[OF reachable.empty]) (simp_all add: any_time_def)
  have r2: "reachable any_time ?d2"
    by (rule reachable.claim[OF r1])
  have "\<forall>m\<in>set ?d2. job_id m < 13"
    by code_simp
  then have r3: "reachable any_time ?d3"
    by (rule reachable.insert[OF r2]) (simp add: any_time_def)
  have r4: "reachable any_time ?d4"
    by (rule reachable.claim[OF r3])
  have e: "run [InsertJob 12 ''CSGO-b'' ''u1'', ClaimNext, InsertJob 13 ''CSGO-c'' ''u1'', ClaimNext] [] = ?d4"
    by simp
  have "status_of ?d4 12 = Some Processing" "status_of ?d4 13 = Some Processing"
    "\<not> one_processing_per_user ?d4"
    by code_simp+
  with r4 show ?thesis unfolding e by blast
qed

text \<open>
  The theorem for claim C2 at a table with four jobs of two users. Job 12 of the
  first user is inserted while the older job 10 is pending, and job 13 after
  job 12 was downloaded; the jobs 11 and 13 of the two users are processing at
  the end. Job 14 may not be inserted for the first user then, and when it is
  inserted and claimed the user has two processing jobs.
\<close>

theorem one_processing_job_per_idle_user_witness:
  "reachable user_idle
     (run [InsertJob 10 ''CSGO-a'' ''u1'', InsertJob 11 ''CSGO-x'' ''u2'', InsertJob 12 ''CSGO-b'' ''u1'',
           ClaimNext, ClaimNext, MarkDownloaded 12 ''downloads/match_12.dem'',
           InsertJob 13 ''CSGO-c'' ''u1'', ClaimNext] []) \<and>
   map (\<lambda>m. (job_id m, user_id m, status m))
     (run [InsertJob 10 ''CSGO-a'' ''u1'', InsertJob 11 ''CSGO-x'' ''u2'', InsertJob 12 ''CSGO-b'' ''u1'',
           ClaimNext, ClaimNext, MarkDownloaded 12 ''downloads/match_12.dem'',
           InsertJob 13 ''CSGO-c'' ''u1'', ClaimNext] []) =
     [(10, Some ''u1'', Pending), (11, Some ''u2'', Processing),
      (12, Some ''u1'', Downloaded), (13, Some ''u1'', Processing)] \<and>
   one_processing_per_user
     (run [InsertJob 10 ''CSGO-a'' ''u1'', InsertJob 11 ''CSGO-x'' ''u2'', InsertJob 12 ''CSGO-b'' ''u1'',
           ClaimNext, ClaimNext, MarkDownloaded 12 ''downloads/match_12.dem'',
           InsertJob 13 ''CSGO-c'' ''u1'', ClaimNext] []) \<and>
   \<not> user_idle
     (run [InsertJob 10 ''CSGO-a'' ''u1'', InsertJob 11 ''CSGO-x'' ''u2'', InsertJob 12 ''CSGO-b'' ''u1'',
           ClaimNext, ClaimNext, MarkDownloaded 12 ''downloads/match_12.dem'',
           InsertJob 13 ''CSGO-c'' ''u1'', ClaimNext] []) 14 ''u1'' \<and>
   \<not> one_processing_per_user
     (run [InsertJob 10 ''CSGO-a'' ''u1'', InsertJob 11 ''CSGO-x'' ''u2'', InsertJob 12 ''CSGO-b'' ''u1'',
           ClaimNext, ClaimNext, MarkDownloaded 12 ''downloads/match_12.dem'',
           InsertJob 13 ''CSGO-c'' ''u1'', ClaimNext, InsertJob 14 ''CSGO-d'' ''u1'', ClaimNext] [])"
proof -
  let ?d1 = "apply_op (InsertJob 10 ''CSGO-a'' ''u1'') []"
  let ?d2 = "apply_op (InsertJob 11 ''CSGO-x'' ''u2'') ?d1"
  let ?d3 = "apply_op (InsertJob 12 ''CSGO-b'' ''u1'') ?d2"
  let ?d4 = "apply_op ClaimNext ?d3"
  let ?d5 = "apply_op ClaimNext ?d4"
  let ?d6 = "apply_op (MarkDownloaded 12 ''downloads/match_12.dem'') ?d5"
  let ?d7 = "apply_op (InsertJob 13 ''CSGO-c'' ''u1'') ?d6"
  let ?d8 = "apply_op ClaimNext ?d7"
  have r1: "reachable user_idle ?d1"
    by (rule reachable.insert[OF reachable.empty]) (simp_all add: user_idle_def)
  have "\<forall>m\<in>set ?d1. job_id m < 11" "user_idle ?d1 11 ''u2''" by code_simp+
  then have r2: "reachable user_idle ?d2" by (rule reachable.insert[OF r1])
  have "\<forall>m\<in>set ?d2. job_id m < 12" "user_idle ?d2 12 ''u1''" by code_simp+
  then have r3: "reachable user_idle ?d3" by (rule reachable.insert[OF r2])
  have r4: "reachable user_idle ?d4" by (rule reachable.claim[OF r3])
  have r5: "reachable user_idle ?d5" by (rule reachable.claim[OF r4])
  have r6: "reachable user_idle ?d6" by (rule reachable.downloaded[OF r5])
  have "\<forall>m\<in>set ?d6. job_id m < 13" "user_idle ?d6 13 ''u1''" by code_simp+
  then have r7: "reachable user_idle ?d7" by (rule reachable.insert[OF r6])
  have r8: "reachable user_idle ?d8" by (rule reachable.claim[OF r7])
  have e: "run [InsertJob 10 ''CSGO-a'' ''u1'', InsertJob 11 ''CSGO-x'' ''u2'', InsertJob 12 ''CSGO-b'' ''u1'',
           ClaimNext, ClaimNext, MarkDownloaded 12 ''downloads/match_12.dem'',
           InsertJob 13 ''CSGO-c'' ''u1'', ClaimNext] [] = ?d8"
    by simp
  have e2: "run [InsertJob 10 ''CSGO-a'' ''u1'', InsertJob 11 ''CSGO-x'' ''u2'', InsertJob 12 ''CSGO-b'' ''u1'',
           ClaimNext, ClaimNext, MarkDownloaded 12 ''downloads/match_12.dem'',
           InsertJob 13 ''CSGO-c'' ''u1'', ClaimNext, InsertJob 14 ''CSGO-d'' ''u1'', ClaimNext] [] =
           run [InsertJob 14 ''CSGO-d'' ''u1'', ClaimNext] ?d8"
    by simp
  have t: "map (\<lambda>m. (job_id m, user_id m, status m)) ?d8 =
     [(10, Some ''u1'', Pending), (11, Some ''u2'', Processing),
      (12, Some ''u1'', Downloaded), (13, Some ''u1'', Processing)]"
    by code_simp
  have h: "(\<forall>m\<in>set ?d8. job_id m < 14) \<and> \<not> user_idle ?d8 14 ''u1''" by code_simp
  from one_processing_job_per_idle_user[OF r8, of 14 "''u1''" "''CSGO-d''"] h
  have "one_processing_per_user ?d8"
    "\<not> one_processing_per_user (run [InsertJob 14 ''CSGO-d'' ''u1'', ClaimNext] ?d8)"
    by blast+
  with r8 t h show ?thesis unfolding e e2 by blast
qed

text \<open>
  Claim C3 as stated fails. The first user's jobs 10 and 12 and the second
  user's job 11 are inserted, jobs 12 and 11 are claimed, and job 12 is marked
  \<^verbatim>\<open>error\<close>. Job 10 is pending and is the highest-id pending job of its user,
  but \<^verbatim>\<open>getPendingMatch\<close> returns nothing and leaves the table as it is.
\<close>

theorem highest_pending_not_claimed_counterexample:
  "run [InsertJob 10 ''CSGO-a'' ''u1'', InsertJob 11 ''CSGO-x'' ''u2'', InsertJob 12 ''CSGO-b'' ''u1'',
        ClaimNext, ClaimNext, MarkError 12] [] =
     [new_job 10 ''CSGO-a'' ''u1'', (new_job 11 ''CSGO-x'' ''u2'')\<lparr>status := Processing\<rparr>,
      (new_job 12 ''CSGO-b'' ''u1'')\<lparr>status := Error\<rparr>] \<and>
   highest_pending_of_user
     [new_job 10 ''CSGO-a'' ''u1'', (new_job 11 ''CSGO-x'' ''u2'')\<lparr>status := Processing\<rparr>,
      (new_job 12 ''CSGO-b'' ''u1'')\<lparr>status := Error\<rparr>]
     (new_job 10 ''CSGO-a'' ''u1'') \<and>
   status_of
     [new_job 10 ''CSGO-a'' ''u1'', (new_job 11 ''CSGO-x'' ''u2'')\<lparr>status := Processing\<rparr>,
      (new_job 12 ''CSGO-b'' ''u1'')\<lparr>status := Error\<rparr>] 10 = Some Pending \<and>
   getPendingMatch
     [new_job 10 ''CSGO-a'' ''u1'', (new_job 11 ''CSGO-x'' ''u2'')\<lparr>status := Processing\<rparr>,
      (new_job 12 ''CSGO-b'' ''u1'')\<lparr>status := Error\<rparr>] =
     (None,
      [new_job 10 ''CSGO-a'' ''u1'', (new_job 11 ''CSGO-x'' ''u2'')\<lparr>status := Processing\<rparr>,
       (new_job 12 ''CSGO-b'' ''u1'')\<lparr>status := Error\<rparr>])"
  by code_simp

text \<open>
  The theorem for claim C3 at a table with the jobs 10 and 12 of one user and
  job 11 of another: job 12 is returned and job 10 is left pending. A table
  whose only pending job is older than a downloaded job of the same user has no
  candidate: nothing is returned and nothing changes.
\<close>

theorem getPendingMatch_claims_one_row_witness:
  "distinct (map job_id [new_job 10 ''CSGO-a'' ''u1'', new_job 12 ''CSGO-b'' ''u1'', new_job 11 ''CSGO-x'' ''u2'']) \<and>
   getPendingMatch [new_job 10 ''CSGO-a'' ''u1'', new_job 12 ''CSGO-b'' ''u1'', new_job 11 ''CSGO-x'' ''u2''] =
     (Some (select_row (new_job 12 ''CSGO-b'' ''u1'')),
      [new_job 10 ''CSGO-a'' ''u1'', (new_job 12 ''CSGO-b'' ''u1'')\<lparr>status := Processing\<rparr>,
       new_job 11 ''CSGO-x'' ''u2'']) \<and>
   distinct (map job_id [new_job 10 ''CSGO-a'' ''u1'', (new_job 12 ''CSGO-b'' ''u1'')\<lparr>status := Downloaded\<rparr>]) \<and>
   getPendingMatch [new_job 10 ''CSGO-a'' ''u1'', (new_job 12 ''CSGO-b'' ''u1'')\<lparr>status := Downloaded\<rparr>] =
     (None, [new_job 10 ''CSGO-a'' ''u1'', (new_job 12 ''CSGO-b'' ''u1'')\<lparr>status := Downloaded\<rparr>])"
proof -
  let ?a = "new_job 10 ''CSGO-a'' ''u1''"
  let ?b = "new_job 12 ''CSGO-b'' ''u1''"
  let ?c = "new_job 11 ''CSGO-x'' ''u2''"
  let ?db = "[?a, ?b, ?c]"
  let ?db2 = "[?a, ?b\<lparr>status := Downloaded\<rparr>]"
  have d: "distinct (map job_id ?db)" by (simp add: new_job_def)
  have top: "\<forall>m\<in>set ?db. status m = Pending \<and> user_id m \<noteq> None \<and>
                 (\<forall>m2\<in>set ?db. user_id m2 = user_id m \<longrightarrow> job_id m2 \<le> job_id m)
                 \<longrightarrow> job_id m \<le> 12" by (simp add: new_job_def)
  have h: "?a \<in> set ?db \<and> ?b \<in> set ?db \<and> job_id ?a = 10 \<and> job_id ?b = 12 \<and>
          status ?a = Pending \<and> status ?b = Pending \<and> user_id ?a = Some ''u1'' \<and> user_id ?b = Some ''u1'' \<and>
          (\<forall>m\<in>set ?db. user_id m = Some ''u1'' \<longrightarrow> m = ?a \<or> m = ?b)"
    by (simp add: new_job_def)
  from getPendingMatch_claims_one_row[OF d, of ?a ?b "''u1''"] h top
  have "getPendingMatch ?db = (Some (select_row ?b), set_status 12 Processing ?db)" by blast
  moreover have "set_status 12 Processing ?db = [?a, ?b\<lparr>status := Processing\<rparr>, ?c]"
    by (simp add: set_status_def new_job_def)
  ultimately have 1: "getPendingMatch ?db = (Some (select_row ?b), [?a, ?b\<lparr>status := Processing\<rparr>, ?c])"
    by simp
  have d2: "distinct (map job_id ?db2)" by (simp add: new_job_def)
  have none: "\<forall>m\<in>set ?db2. \<not> (status m = Pending \<and> user_id m \<noteq> None \<and>
                (\<forall>m2\<in>set ?db2. user_id m2 = user_id m \<longrightarrow> job_id m2 \<le> job_id m))"
    by (simp add: new_job_def)
  from getPendingMatch_claims_one_row[OF d2, of ?a ?a "''u1''"] none
  have "fst (getPendingMatch ?db2) = None" "snd (getPendingMatch ?db2) = ?db2"
    by blast+
  then have 2: "getPendingMatch ?db2 = (None, ?db2)"
    by (metis prod.collapse)
  from 1 2 d d2 show ?thesis by blast
qed

section \<open>Properties of the replay URL resolver\<close>








lemma length_padStart: "length (padStart n c s) = max n (length s)"
  by (simp add: padStart_def)

lemma length_string_of_nat: "0 < k \<Longrightarrow> n < 10 ^ k \<Longrightarrow> length (string_of_nat n) \<le> k"
proof (induction n arbitrary: k rule: string_of_nat.induct)
  case (1 n)
  show ?case
  proof (cases "n < 10")
    case True
    then show ?thesis using "1.prems" by (subst string_of_nat.simps) simp
  next
    case False
    then obtain k' where k': "k = Suc k'" "0 < k'"
      using "1.prems" by (cases k; cases "k - 1") auto
    have "n div 10 < 10 ^ k'" using "1.prems"(2) k' by (simp add: less_mult_imp_div_less mult.commute)
    then have "length (string_of_nat (n div 10)) \<le> k'"
      using "1.IH"[OF False k'(2)] by simp
    then show ?thesis using False k' by (subst string_of_nat.simps) simp
  qed
qed

lemma digit_char_digit: "d < 10 \<Longrightarrow> digit_char d \<in> set ''0123456789''"
  unfolding digit_char_def by (rule nth_mem) simp

lemma string_of_nat_digits: "c \<in> set (string_of_nat n) \<Longrightarrow> c \<in> set ''0123456789''"
proof (induction n rule: string_of_nat.induct)
  case (1 n)
  show ?case
  proof (cases "n < 10")
    case True
    with "1.prems" have "c = digit_char n" by (subst (asm) string_of_nat.simps) simp
    with True show ?thesis using digit_char_digit by blast
  next
    case False
    with "1.prems" have "c \<in> set (string_of_nat (n div 10)) \<or> c = digit_char (n mod 10)"
      by (subst (asm) string_of_nat.simps) auto
    then show ?thesis
    proof
      assume "c \<in> set (string_of_nat (n div 10))"
      then show ?thesis using "1.IH"[OF False] by blast
    next
      assume "c = digit_char (n mod 10)"
      then show ?thesis using digit_char_digit[of "n mod 10"] by simp
    qed
  qed
qed

lemma string_of_nat_numeral [simp]:
  "string_of_nat (numeral k) =
     (if (numeral k :: nat) < 10 then [digit_char (numeral k)]
      else string_of_nat (numeral k div 10) @ [digit_char (numeral k mod 10)])"
  by (rule string_of_nat.simps)

lemma digit_char_small [simp]: "digit_char 0 = CHR ''0''" "digit_char (Suc 0) = CHR ''1''"
  by (simp_all add: digit_char_def)

lemma string_of_nat_small [simp]: "string_of_nat 0 = ''0''" "string_of_nat (Suc 0) = ''1''"
  by (simp_all add: string_of_nat.simps[of 0] string_of_nat.simps[of "Suc 0"])

lemma digit_char_numeral [simp]: "digit_char (numeral k) = ''0123456789'' ! numeral k"
  by (simp add: digit_char_def)

text \<open>
  Claim C8, as the code has it. The padded reservation-id segment is the string
  form of the reservation id with zeros put in front of it up to a length of 21
  characters. It has \<open>max 21 n\<close> characters, where \<open>n\<close> is the length of the
  string form: exactly 21 when the string form has at most 21 characters, and
  the segment is the unchanged string form, however long, when that has 21
  characters or more. A number with an integral value from 0 up to \<open>2\<^sup>5\<^sup>3\<close>, whose
  string form is its decimal numeral, gives 21 digits, and 42 gives
  \<^verbatim>\<open>000000000000000000042\<close>. The derived URL carries this segment between
  \<^verbatim>\<open>/730/\<close> and the port.
\<close>

theorem paddedReservation_length:
  "length (paddedReservation rid) = max 21 (length (to_string rid)) \<and>
   (length (to_string rid) \<le> 21 \<longrightarrow>
      length (paddedReservation rid) = 21 \<and>
      paddedReservation rid = replicate (21 - length (to_string rid)) (CHR ''0'') @ to_string rid) \<and>
   (21 \<le> length (to_string rid) \<longrightarrow> paddedReservation rid = to_string rid) \<and>
   (21 < length (to_string rid) \<longrightarrow> length (paddedReservation rid) \<noteq> 21) \<and>
   (0 \<le> n \<and> n < 2 ^ 53 \<longrightarrow>
      length (paddedReservation (JNum (string_of_int n))) = 21 \<and>
      (\<forall>c\<in>set (paddedReservation (JNum (string_of_int n))). c \<in> set ''0123456789'')) \<and>
   string_of_int 42 = ''42'' \<and>
   paddedReservation (JNum ''42'') = ''000000000000000000042'' \<and>
   (buildReplayUrl m \<noteq> JNull \<longrightarrow>
      buildReplayUrl m =
        JStr (''http://replay'' @ to_string (serverIp_of m) @ ''.valve.net/730/''
              @ paddedReservation (reservationId_of m) @ ''_''
              @ to_string (tvPort_of m) @ ''.dem.bz2''))"
proof (intro conjI impI)
  show l: "length (paddedReservation rid) = max 21 (length (to_string rid))"
    by (simp add: paddedReservation_def length_padStart)
  then show "length (paddedReservation rid) = 21" if "length (to_string rid) \<le> 21"
    using that by simp
  show "paddedReservation rid = replicate (21 - length (to_string rid)) (CHR ''0'') @ to_string rid"
    by (simp add: paddedReservation_def padStart_def)
  show "paddedReservation rid = to_string rid" if "21 \<le> length (to_string rid)"
    using that by (simp add: paddedReservation_def padStart_def)
  show "length (paddedReservation rid) \<noteq> 21" if "21 < length (to_string rid)"
    using that l by simp
  show "string_of_int 42 = ''42''"
    by (simp add: string_of_int_def)
  show "paddedReservation (JNum ''42'') = ''000000000000000000042''"
    by code_simp
  show "buildReplayUrl m = JStr (''http://replay'' @ to_string (serverIp_of m) @ ''.valve.net/730/''
              @ paddedReservation (reservationId_of m) @ ''_''
              @ to_string (tvPort_of m) @ ''.dem.bz2'')" if "buildReplayUrl m \<noteq> JNull"
    using that by (simp add: buildReplayUrl_def split: if_splits)
next
  assume n: "0 \<le> n \<and> n < 2 ^ 53"
  have "(2::int) ^ 53 < 10 ^ 16" by simp
  with n have "n < 10 ^ 16" by linarith
  with n have "nat n < 10 ^ 16" by (simp add: nat_less_iff)
  then have "length (string_of_nat (nat n)) \<le> 16"
    by (intro length_string_of_nat) simp_all
  then have l: "length (string_of_nat (nat n)) \<le> 21" by simp
  have s: "string_of_int n = string_of_nat (nat n)" using n by (simp add: string_of_int_def)
  show "length (paddedReservation (JNum (string_of_int n))) = 21"
    using l by (simp add: paddedReservation_def length_padStart s)
  have z: "CHR ''0'' \<in> set ''0123456789''" by simp
  show "\<forall>c\<in>set (paddedReservation (JNum (string_of_int n))). c \<in> set ''0123456789''"
    using string_of_nat_digits[of _ "nat n"] z
    by (auto simp: paddedReservation_def padStart_def s simp del: set_simps)
qed

lemmas resolver_defs = buildReplayUrl_def serverIp_of_def tvPort_of_def reservationId_of_def
  watchable_of_def roundStats_of_def js_or_def paddedReservation_def string_of_int_def
  direct_candidates_def alternativeUrl_def


text \<open>
  Claim C8 as stated fails: a reservation id of 22 digits is not shortened, the
  segment has 22 characters.
\<close>

theorem paddedReservation_long_counterexample:
  "buildReplayUrl (JObj [(''watchablematchinfo'', JObj [(''server_ip'', JNum ''135''), (''tv_port'', JNum ''27015'')]),
                 (''round_stats_all'', JArr [JObj [(''reservationid'', JStr ''1234567890123456789012'')]])])
     = JStr ''http://replay135.valve.net/730/1234567890123456789012_27015.dem.bz2'' \<and>
   reservationId_of (JObj [(''watchablematchinfo'', JObj [(''server_ip'', JNum ''135''), (''tv_port'', JNum ''27015'')]),
                 (''round_stats_all'', JArr [JObj [(''reservationid'', JStr ''1234567890123456789012'')]])])
     = JStr ''1234567890123456789012'' \<and>
   paddedReservation (JStr ''1234567890123456789012'') = ''1234567890123456789012'' \<and>
   length (paddedReservation (JStr ''1234567890123456789012'')) = 22"
proof -
  have p: "padStart 21 (CHR ''0'') ''1234567890123456789012'' = ''1234567890123456789012''"
    by (simp add: padStart_def)
  show ?thesis by (simp add: resolver_defs p)
qed

text \<open>
  The theorem for claim C8 at a reservation id of ten digits, at a reservation
  id of 22 digits and at the numbers 42, 3405691582 and \<open>10\<^sup>2\<^sup>1\<close>, which
  \<^verbatim>\<open>String()\<close> prints as \<^verbatim>\<open>1e+21\<close>.
\<close>

theorem paddedReservation_length_witness:
  "length (to_string (JStr ''3405691582'')) \<le> 21 \<and>
   length (paddedReservation (JStr ''3405691582'')) = 21 \<and>
   paddedReservation (JStr ''3405691582'') = ''000000000003405691582'' \<and>
   21 \<le> length (to_string (JStr ''1234567890123456789012'')) \<and>
   paddedReservation (JStr ''1234567890123456789012'') = to_string (JStr ''1234567890123456789012'') \<and>
   (0::int) \<le> 3405691582 \<and> (3405691582::int) < 2 ^ 53 \<and>
   length (paddedReservation (JNum (string_of_int 3405691582))) = 21 \<and>
   paddedReservation (JNum ''42'') = ''000000000000000000042'' \<and>
   length (to_string (JNum ''1e+21'')) \<le> 21 \<and>
   paddedReservation (JNum ''1e+21'') = ''00000000000000001e+21'' \<and>
   buildReplayUrl (JObj [(''watchablematchinfo'', JObj [(''server_ip'', JNum ''135''), (''tv_port'', JNum ''27015'')]),
                 (''round_stats_all'', JArr [JObj [(''reservationid'', JStr ''3405691582'')]])])
     = JStr ''http://replay135.valve.net/730/000000000003405691582_27015.dem.bz2''"
proof -
  let ?m = "JObj [(''watchablematchinfo'', JObj [(''server_ip'', JNum ''135''), (''tv_port'', JNum ''27015'')]),
                 (''round_stats_all'', JArr [JObj [(''reservationid'', JStr ''3405691582'')]])]"
  have l: "length (to_string (JStr ''3405691582'')) \<le> 21" by simp
  have g: "21 \<le> length (to_string (JStr ''1234567890123456789012''))" by simp
  have n: "(0::int) \<le> 3405691582 \<and> (3405691582::int) < 2 ^ 53" by simp
  have p: "padStart 21 (CHR ''0'') ''3405691582'' = ''000000000003405691582''" by code_simp
  have b: "buildReplayUrl ?m \<noteq> JNull" by (simp add: resolver_defs)
  have r: "replicate (21 - length (to_string (JStr ''3405691582''))) (CHR ''0'') @ to_string (JStr ''3405691582'')
           = ''000000000003405691582''"
    using p by (simp add: padStart_def)
  have e: "''http://replay'' @ to_string (serverIp_of ?m) @ ''.valve.net/730/''
              @ paddedReservation (reservationId_of ?m) @ ''_''
              @ to_string (tvPort_of ?m) @ ''.dem.bz2''
           = ''http://replay135.valve.net/730/000000000003405691582_27015.dem.bz2''"
    by (simp add: resolver_defs p)
  from paddedReservation_length[of "JStr ''3405691582''" 3405691582 ?m] l n b
  have 1: "length (paddedReservation (JStr ''3405691582'')) = 21"
    "paddedReservation (JStr ''3405691582'') =
       replicate (21 - length (to_string (JStr ''3405691582''))) (CHR ''0'') @ to_string (JStr ''3405691582'')"
    "length (paddedReservation (JNum (string_of_int 3405691582))) = 21"
    "paddedReservation (JNum ''42'') = ''000000000000000000042''"
    "buildReplayUrl ?m = JStr (''http://replay'' @ to_string (serverIp_of ?m) @ ''.valve.net/730/''
              @ paddedReservation (reservationId_of ?m) @ ''_''
              @ to_string (tvPort_of ?m) @ ''.dem.bz2'')"
    by blast+
  from paddedReservation_length[of "JStr ''1234567890123456789012''" 0 JNull] g
  have 2: "paddedReservation (JStr ''1234567890123456789012'') = to_string (JStr ''1234567890123456789012'')"
    by blast
  have x: "length (to_string (JNum ''1e+21'')) \<le> 21" by simp
  have rx: "replicate (21 - length (to_string (JNum ''1e+21''))) (CHR ''0'') @ to_string (JNum ''1e+21'')
            = ''00000000000000001e+21''"
    by code_simp
  from paddedReservation_length[of "JNum ''1e+21''" 0 JNull] x
  have 3: "paddedReservation (JNum ''1e+21'') =
             replicate (21 - length (to_string (JNum ''1e+21''))) (CHR ''0'') @ to_string (JNum ''1e+21'')"
    by blast
  from 1 2 3 show ?thesis using l g n x unfolding r e rx by blast
qed

section \<open>Properties of the download loop\<close>




lemma attempt_body_other_status:
  assumes "\<not> (response_ok r \<and> body r \<noteq> None)" "\<not> retryable (http_status r)"
  shows "attempt_body outputFile attempt (Responds r) =
           (Throw (new_Error (''Replay download failed: '' @ string_of_int (http_status r))), [])"
  using assms by (auto simp: attempt_body_def split: option.splits)

lemma downloadReplay_from_other_status:
  assumes "attempt \<le> maxAttempts" "web url attempt = Responds r"
    "\<not> (response_ok r \<and> body r \<noteq> None)" "\<not> retryable (http_status r)"
  shows "downloadReplay_from web url outputFile attempt =
           (Inl (new_Error (''Replay download failed: '' @ string_of_int (http_status r))),
            [Fetch url attempt])"
  using assms(1,2) attempt_body_other_status[OF assms(3,4)]
  by (subst downloadReplay_from.simps) simp

lemma upt_head: "a \<le> n \<Longrightarrow> [a..<Suc n] = a # [Suc a..<Suc n]"
  by (simp add: upt_conv_Cons)






lemma set_fetches: "Fetch url a \<in> set es \<Longrightarrow> a \<in> set (fetches es)"
  by (induction es rule: fetches.induct) auto

lemma attempt_body_no_fetch: "Fetch url a \<notin> set (snd (attempt_body outputFile attempt fetched))"
  by (auto simp: attempt_body_def split: fetch_result.splits option.splits pipeline_result.splits)

lemma downloadReplay_from_empty_body:
  assumes "Fetch url a \<in> set (snd (downloadReplay_from web url outputFile attempt))"
    and "web url a = Responds r" and "response_ok r" and "body r = None"
  shows "fst (downloadReplay_from web url outputFile attempt) =
           Inl (new_Error (''Replay download failed: '' @ string_of_int (http_status r))) \<and>
         (\<exists>before. snd (downloadReplay_from web url outputFile attempt) = before @ [Fetch url a])"
  using assms(1,2)
proof (induction web url outputFile attempt rule: downloadReplay_from.induct)
  case (1 web url outputFile attempt)
  note mem = "1.prems"(1) and resp = "1.prems"(2)
  have le: "attempt \<le> maxAttempts"
  proof (rule ccontr)
    assume "\<not> attempt \<le> maxAttempts"
    then have "snd (downloadReplay_from web url outputFile attempt) = []"
      by (subst downloadReplay_from.simps) simp
    with mem show False by simp
  qed
  have nr: "\<not> retryable (http_status r)"
    using assms(3) by (auto simp: response_ok_def retryable_def)
  show ?case
  proof (cases "a = attempt")
    case True
    have "downloadReplay_from web url outputFile attempt =
           (Inl (new_Error (''Replay download failed: '' @ string_of_int (http_status r))),
            [Fetch url attempt])"
      by (rule downloadReplay_from_other_status[OF le]) (use True resp assms(4) nr in simp_all)
    then show ?thesis using True by simp
  next
    case False
    obtain exit effects where ab: "attempt_body outputFile attempt (web url attempt) = (exit, effects)"
      by (cases "attempt_body outputFile attempt (web url attempt)")
    have nf: "Fetch url a \<notin> set effects"
      using attempt_body_no_fetch[of url a outputFile attempt "web url attempt"] ab by simp
    show ?thesis
    proof (cases exit)
      case Return
      then have "snd (downloadReplay_from web url outputFile attempt) = Fetch url attempt # effects"
        using le ab by (subst downloadReplay_from.simps) simp
      with mem False nf show ?thesis by simp
    next
      case (Throw error)
      then have "snd (downloadReplay_from web url outputFile attempt) = Fetch url attempt # effects"
        using le ab by (subst downloadReplay_from.simps) simp
      with mem False nf show ?thesis by simp
    next
      case (Continue ms)
      obtain result later where r: "downloadReplay_from web url outputFile (attempt + 1) = (result, later)"
        by (cases "downloadReplay_from web url outputFile (attempt + 1)")
      have e: "downloadReplay_from web url outputFile attempt =
               (result, Fetch url attempt # effects @ Sleep ms # later)"
        using le ab Continue r by (subst downloadReplay_from.simps) simp
      with mem False nf have "Fetch url a \<in> set later" by simp
      with "1.IH"[OF le ab[symmetric] Continue] r resp
      obtain before where "result = Inl (new_Error (''Replay download failed: '' @ string_of_int (http_status r)))"
        "later = before @ [Fetch url a]"
        by auto
      then have "fst (downloadReplay_from web url outputFile attempt) =
                   Inl (new_Error (''Replay download failed: '' @ string_of_int (http_status r)))"
        and "snd (downloadReplay_from web url outputFile attempt) =
               (Fetch url attempt # effects @ Sleep ms # before) @ [Fetch url a]"
        unfolding e by simp_all
      then show ?thesis by blast
    qed
  qed
qed

lemma attempt_body_present:
  assumes "response_ok r" "body r = Some p"
  shows "\<exists>rest. snd (attempt_body outputFile attempt (Responds r)) = CreateWriteStream outputFile # rest"
    "p = Piped \<Longrightarrow> attempt_body outputFile attempt (Responds r) = (Return, [CreateWriteStream outputFile])"
  using assms by (auto simp: attempt_body_def split: pipeline_result.splits)

lemma downloadReplay_from_present_body:
  assumes "Fetch url a \<in> set (snd (downloadReplay_from web url outputFile attempt))"
    and "web url a = Responds r" and "response_ok r" and "body r = Some p"
  shows "CreateWriteStream outputFile \<in> set (snd (downloadReplay_from web url outputFile attempt)) \<and>
         (p = Piped \<longrightarrow> fst (downloadReplay_from web url outputFile attempt) = Inr ())"
  using assms(1,2)
proof (induction web url outputFile attempt rule: downloadReplay_from.induct)
  case (1 web url outputFile attempt)
  note mem = "1.prems"(1) and resp = "1.prems"(2)
  have le: "attempt \<le> maxAttempts"
  proof (rule ccontr)
    assume "\<not> attempt \<le> maxAttempts"
    then have "snd (downloadReplay_from web url outputFile attempt) = []"
      by (subst downloadReplay_from.simps) simp
    with mem show False by simp
  qed
  obtain exit effects where ab: "attempt_body outputFile attempt (web url attempt) = (exit, effects)"
    by (cases "attempt_body outputFile attempt (web url attempt)")
  show ?case
  proof (cases "a = attempt")
    case True
    from attempt_body_present(1)[OF assms(3,4), of outputFile attempt] ab True resp
    have c: "CreateWriteStream outputFile \<in> set effects" by auto
    have p: "exit = Return" if "p = Piped"
      using attempt_body_present(2)[OF assms(3,4) that, of outputFile attempt] ab True resp by simp
    show ?thesis
    proof (cases exit)
      case Return
      then have "downloadReplay_from web url outputFile attempt = (Inr (), Fetch url attempt # effects)"
        using le ab by (subst downloadReplay_from.simps) simp
      with c show ?thesis by simp
    next
      case (Throw error)
      then have "downloadReplay_from web url outputFile attempt = (Inl error, Fetch url attempt # effects)"
        using le ab by (subst downloadReplay_from.simps) simp
      with c p Throw show ?thesis by auto
    next
      case (Continue ms)
      obtain result later where r: "downloadReplay_from web url outputFile (attempt + 1) = (result, later)"
        by (cases "downloadReplay_from web url outputFile (attempt + 1)")
      have "downloadReplay_from web url outputFile attempt =
               (result, Fetch url attempt # effects @ Sleep ms # later)"
        using le ab Continue r by (subst downloadReplay_from.simps) simp
      with c p Continue show ?thesis by auto
    qed
  next
    case False
    have nf: "Fetch url a \<notin> set effects"
      using attempt_body_no_fetch[of url a outputFile attempt "web url attempt"] ab by simp
    show ?thesis
    proof (cases exit)
      case Return
      then have "snd (downloadReplay_from web url outputFile attempt) = Fetch url attempt # effects"
        using le ab by (subst downloadReplay_from.simps) simp
      with mem False nf show ?thesis by simp
    next
      case (Throw error)
      then have "snd (downloadReplay_from web url outputFile attempt) = Fetch url attempt # effects"
        using le ab by (subst downloadReplay_from.simps) simp
      with mem False nf show ?thesis by simp
    next
      case (Continue ms)
      obtain result later where r: "downloadReplay_from web url outputFile (attempt + 1) = (result, later)"
        by (cases "downloadReplay_from web url outputFile (attempt + 1)")
      have e: "downloadReplay_from web url outputFile attempt =
               (result, Fetch url attempt # effects @ Sleep ms # later)"
        using le ab Continue r by (subst downloadReplay_from.simps) simp
      with mem False nf have "Fetch url a \<in> set later" by simp
      with "1.IH"[OF le ab[symmetric] Continue] r resp
      have "CreateWriteStream outputFile \<in> set later \<and> (p = Piped \<longrightarrow> result = Inr ())"
        by auto
      then show ?thesis unfolding e by simp
    qed
  qed
qed

text \<open>
  Claim C10, as the code has it. Take an attempt of a call that gets a response
  with a status from 200 to 299. When the response has no body (its \<^verbatim>\<open>body\<close> is
  \<^verbatim>\<open>null\<close>), the call throws the error \<^verbatim>\<open>Replay download failed: <status>\<close>, and
  the fetch of that attempt is the last thing the call does: no wait, no
  further attempt and no write stream on the output file follow, and the
  attempt itself opens no write stream. When the response has a body, whatever
  the body carries, the attempt opens the write stream on the output file
  first, and the call returns when the pipeline of that attempt succeeds.
\<close>

theorem downloadReplay_ok_without_body:
  assumes "Fetch url a \<in> set (snd (downloadReplay web url outputFile))"
    and "web url a = Responds r" and "response_ok r"
  shows "(body r = None \<longrightarrow>
            fst (downloadReplay web url outputFile) =
              Inl (new_Error (''Replay download failed: '' @ string_of_int (http_status r))) \<and>
            (\<exists>before. snd (downloadReplay web url outputFile) = before @ [Fetch url a]) \<and>
            fst (attempt_body outputFile a (web url a)) =
              Throw (new_Error (''Replay download failed: '' @ string_of_int (http_status r))) \<and>
            snd (attempt_body outputFile a (web url a)) = []) \<and>
         (body r \<noteq> None \<longrightarrow>
            CreateWriteStream outputFile \<in> set (snd (downloadReplay web url outputFile)) \<and>
            (\<exists>rest. snd (attempt_body outputFile a (web url a)) = CreateWriteStream outputFile # rest) \<and>
            (body r = Some Piped \<longrightarrow> fst (downloadReplay web url outputFile) = Inr ()))"
proof (intro conjI impI)
  assume n: "body r = None"
  have nr: "\<not> retryable (http_status r)"
    using assms(3) by (auto simp: response_ok_def retryable_def)
  have ab: "attempt_body outputFile a (web url a) =
          (Throw (new_Error (''Replay download failed: '' @ string_of_int (http_status r))), [])"
    unfolding assms(2) by (rule attempt_body_other_status) (use n nr in simp_all)
  note d = downloadReplay_from_empty_body[OF assms(1)[unfolded downloadReplay_def] assms(2,3) n]
  show "fst (downloadReplay web url outputFile) =
              Inl (new_Error (''Replay download failed: '' @ string_of_int (http_status r)))"
    using d by (simp add: downloadReplay_def)
  show "\<exists>before. snd (downloadReplay web url outputFile) = before @ [Fetch url a]"
    using d by (simp add: downloadReplay_def)
  show "fst (attempt_body outputFile a (web url a)) =
              Throw (new_Error (''Replay download failed: '' @ string_of_int (http_status r)))"
    using ab by simp
  show "snd (attempt_body outputFile a (web url a)) = []"
    using ab by simp
next
  assume "body r \<noteq> None"
  then obtain p where p: "body r = Some p" by auto
  note d = downloadReplay_from_present_body[OF assms(1)[unfolded downloadReplay_def] assms(2,3) p]
  show "CreateWriteStream outputFile \<in> set (snd (downloadReplay web url outputFile))"
    using d by (simp add: downloadReplay_def)
  show "\<exists>rest. snd (attempt_body outputFile a (web url a)) = CreateWriteStream outputFile # rest"
    unfolding assms(2) by (rule attempt_body_present(1)[OF assms(3) p])
  show "fst (downloadReplay web url outputFile) = Inr ()" if "body r = Some Piped"
    using d that p by (simp add: downloadReplay_def)
qed

text \<open>
  Claim C10 as stated fails. A response with status 200 whose body is a stream
  without bytes goes into the pipeline: the write stream on the output file is
  opened, and the call does not throw \<^verbatim>\<open>Replay download failed: 200\<close>. It
  returns when the pipeline accepts the stream, and when the pipeline throws, it
  removes the output file and throws the error of the pipeline.
\<close>

theorem body_without_bytes_counterexample:
  "response_ok \<lparr>http_status = 200, body = Some Piped\<rparr> \<and>
   downloadReplay (body_without_bytes Piped) ''http://replay135.valve.net/730/003_27015.dem.bz2''
       ''downloads/match_12.dem'' =
     (Inr (), [Fetch ''http://replay135.valve.net/730/003_27015.dem.bz2'' 1,
               CreateWriteStream ''downloads/match_12.dem'']) \<and>
   downloadReplay (body_without_bytes (PipelineThrows (new_Error ''unexpected end of input'')))
       ''http://replay135.valve.net/730/003_27015.dem.bz2'' ''downloads/match_12.dem'' =
     (Inl (new_Error ''unexpected end of input''),
      [Fetch ''http://replay135.valve.net/730/003_27015.dem.bz2'' 1,
       CreateWriteStream ''downloads/match_12.dem'', RemoveFile ''downloads/match_12.dem''])"
  by (simp add: downloadReplay_def downloadReplay_from.simps body_without_bytes_def attempt_body_def
        response_ok_def maxAttempts_def outer_catch_def isRetryableFetchError_def new_Error_def)

text \<open>
  The theorem for claim C10 at a first attempt that is answered with 200 and no
  body, and at a fourth attempt that is answered with 200 and a body that is
  piped, after three attempts answered with 502.
\<close>

theorem downloadReplay_ok_without_body_witness:
  "Fetch ''http://replay135.valve.net/730/003_27015.dem.bz2'' 1
     \<in> set (snd (downloadReplay no_body_200 ''http://replay135.valve.net/730/003_27015.dem.bz2''
                   ''downloads/match_12.dem'')) \<and>
   no_body_200 ''http://replay135.valve.net/730/003_27015.dem.bz2'' 1
     = Responds \<lparr>http_status = 200, body = None\<rparr> \<and>
   response_ok \<lparr>http_status = 200, body = None\<rparr> \<and>
   downloadReplay no_body_200 ''http://replay135.valve.net/730/003_27015.dem.bz2''
       ''downloads/match_12.dem'' =
     (Inl (new_Error ''Replay download failed: 200''),
      [Fetch ''http://replay135.valve.net/730/003_27015.dem.bz2'' 1]) \<and>
   three_502_then_ok ''http://replay135.valve.net/730/003_27015.dem.bz2'' 4
     = Responds \<lparr>http_status = 200, body = Some Piped\<rparr> \<and>
   Fetch ''http://replay135.valve.net/730/003_27015.dem.bz2'' 4
     \<in> set (snd (downloadReplay three_502_then_ok ''http://replay135.valve.net/730/003_27015.dem.bz2''
                   ''downloads/match_12.dem'')) \<and>
   CreateWriteStream ''downloads/match_12.dem''
     \<in> set (snd (downloadReplay three_502_then_ok ''http://replay135.valve.net/730/003_27015.dem.bz2''
                   ''downloads/match_12.dem'')) \<and>
   fst (downloadReplay three_502_then_ok ''http://replay135.valve.net/730/003_27015.dem.bz2''
          ''downloads/match_12.dem'') = Inr ()"
proof -
  let ?url = "''http://replay135.valve.net/730/003_27015.dem.bz2''"
  let ?out = "''downloads/match_12.dem''"
  let ?r = "\<lparr>http_status = 200, body = None\<rparr>"
  let ?r' = "\<lparr>http_status = 200, body = Some Piped\<rparr>"
  have run: "downloadReplay no_body_200 ?url ?out =
               (Inl (new_Error ''Replay download failed: 200''), [Fetch ?url 1])"
    by (simp add: downloadReplay_def downloadReplay_from.simps no_body_200_def attempt_body_def
          status_only_def response_ok_def retryable_def maxAttempts_def string_of_int_def)
  have m: "Fetch ?url 1 \<in> set (snd (downloadReplay no_body_200 ?url ?out))" by (simp add: run)
  have e: "no_body_200 ?url 1 = Responds ?r" by (simp add: no_body_200_def status_only_def)
  have k: "response_ok ?r" "body ?r = None" by (simp_all add: response_ok_def)
  have s: "string_of_int (http_status ?r) = ''200''" by (simp add: string_of_int_def)
  from downloadReplay_ok_without_body[OF m e k(1)] k(2)
  have 1: "fst (downloadReplay no_body_200 ?url ?out) = Inl (new_Error ''Replay download failed: 200'')"
    unfolding s by simp
  have m': "Fetch ?url 4 \<in> set (snd (downloadReplay three_502_then_ok ?url ?out))"
    by (simp add: downloadReplay_def downloadReplay_from.simps three_502_then_ok_def attempt_body_def
          status_only_def ok_with_body_def response_ok_def retryable_def maxAttempts_def)
  have e': "three_502_then_ok ?url 4 = Responds ?r'"
    by (simp add: three_502_then_ok_def ok_with_body_def)
  have k': "response_ok ?r'" "body ?r' \<noteq> None" "body ?r' = Some Piped" by (simp_all add: response_ok_def)
  from downloadReplay_ok_without_body[OF m' e' k'(1)] k'(2,3)
  have 2: "CreateWriteStream ?out \<in> set (snd (downloadReplay three_502_then_ok ?url ?out))"
    "fst (downloadReplay three_502_then_ok ?url ?out) = Inr ()"
    by blast+
  from m e k run m' e' 2 show ?thesis by simp
qed

section \<open>Properties of the message dispatch\<close>

lemma canMessageUser_relationship:
  "canMessageUser cl (Some sid) \<longleftrightarrow>
     sid \<noteq> [] \<and> (\<exists>rel. relationship_of cl sid = Some rel \<and> rel \<noteq> Relationship_None \<and>
                        rel \<noteq> Blocked \<and> rel \<noteq> Ignored)"
  by (auto simp: canMessageUser_def split: option.splits)

lemma canMessageUser_None: "\<not> canMessageUser cl None"
  by (simp add: canMessageUser_def)

text \<open>One pass of the loop, with the results of the remaining passes as projections.\<close>

lemma send_rows_step:
  "send_rows cl t (row # rows) db =
     (if \<not> canMessageUser cl (tip_steam_id row)
      then (fst (send_rows cl t rows db), CannotMessage (tip_id row) # snd (send_rows cl t rows db))
      else if t (tip_id row)
      then (fst (send_rows cl t rows db),
            SendFriendMessage (tip_id row) (case tip_steam_id row of None \<Rightarrow> [] | Some s \<Rightarrow> s)
                (tip_coach_tip row)
              # SendFailed (tip_id row) # snd (send_rows cl t rows db))
      else (fst (send_rows cl t rows (markTipSent (tip_id row) db)),
            SendFriendMessage (tip_id row) (case tip_steam_id row of None \<Rightarrow> [] | Some s \<Rightarrow> s)
                (tip_coach_tip row)
              # TipSent (tip_id row) # snd (send_rows cl t rows (markTipSent (tip_id row) db))))"
  by (cases "tip_steam_id row") (simp_all add: canMessageUser_None split: prod.splits)

lemma send_rows_append:
  "send_rows cl t (pre @ post) db =
     (fst (send_rows cl t post (fst (send_rows cl t pre db))),
      snd (send_rows cl t pre db) @ snd (send_rows cl t post (fst (send_rows cl t pre db))))"
  by (induction pre arbitrary: db) (simp_all add: send_rows_step del: send_rows.simps(2))

lemma send_rows_quiet_id:
  assumes "\<forall>row\<in>set rows. tip_id row = i \<longrightarrow> \<not> canMessageUser cl (tip_steam_id row)"
  shows "SendFriendMessage i sid msg \<notin> set (snd (send_rows cl t rows db)) \<and>
         TipSent i \<notin> set (snd (send_rows cl t rows db))"
  using assms
  by (induction rows arbitrary: db) (auto simp: send_rows_step simp del: send_rows.simps(2))

lemma markTipSent_other: "m \<in> set db \<Longrightarrow> job_id m \<noteq> j \<Longrightarrow> m \<in> set (markTipSent j db)"
  by (force simp: markTipSent_def)

lemma send_rows_row_kept:
  assumes "TipSent (job_id m) \<notin> set (snd (send_rows cl t rows db))" "m \<in> set db"
  shows "m \<in> set (fst (send_rows cl t rows db))"
  using assms
proof (induction rows arbitrary: db)
  case Nil
  then show ?case by simp
next
  case (Cons row rows)
  show ?case
  proof (cases "canMessageUser cl (tip_steam_id row) \<and> \<not> t (tip_id row)")
    case False
    then show ?thesis
      using Cons.IH[of db] Cons.prems
      by (auto simp: send_rows_step simp del: send_rows.simps(2))
  next
    case True
    with Cons.prems(1) have ne: "job_id m \<noteq> tip_id row"
      and rest: "TipSent (job_id m) \<notin> set (snd (send_rows cl t rows (markTipSent (tip_id row) db)))"
      by (auto simp: send_rows_step simp del: send_rows.simps(2))
    have "m \<in> set (markTipSent (tip_id row) db)"
      by (rule markTipSent_other[OF Cons.prems(2) ne])
    from Cons.IH[OF rest this] show ?thesis
      using True by (simp add: send_rows_step del: send_rows.simps(2))
  qed
qed

lemma tip_follows_send_Nil: "tip_follows_send t []"
  by (simp add: tip_follows_send_def)

lemma tip_follows_send_Cons:
  assumes "tip_follows_send t es" "\<forall>i. e \<noteq> TipSent i"
  shows "tip_follows_send t (e # es)"
  unfolding tip_follows_send_def
proof (intro allI impI)
  fix pre post i assume eq: "e # es = pre @ TipSent i # post"
  with assms(2) obtain pre2 where p: "pre = e # pre2" "es = pre2 @ TipSent i # post"
    by (cases pre) auto
  with assms(1) obtain pre' sid msg where "pre2 = pre' @ [SendFriendMessage i sid msg]" "\<not> t i"
    unfolding tip_follows_send_def by blast
  with p show "(\<exists>pre' sid msg. pre = pre' @ [SendFriendMessage i sid msg]) \<and> \<not> t i"
    by (intro conjI exI[of _ "e # pre'"] exI[of _ sid] exI[of _ msg]) simp_all
qed

lemma tip_follows_send_sent:
  assumes "tip_follows_send t es" "\<not> t j"
  shows "tip_follows_send t (SendFriendMessage j s x # TipSent j # es)"
  unfolding tip_follows_send_def
proof (intro allI impI)
  fix pre post i assume eq: "SendFriendMessage j s x # TipSent j # es = pre @ TipSent i # post"
  then obtain pre1 where p1: "pre = SendFriendMessage j s x # pre1" "TipSent j # es = pre1 @ TipSent i # post"
    by (cases pre) auto
  show "(\<exists>pre' sid msg. pre = pre' @ [SendFriendMessage i sid msg]) \<and> \<not> t i"
  proof (cases pre1)
    case Nil
    with p1 have "i = j" "pre = [] @ [SendFriendMessage i s x]" by simp_all
    with assms(2) show ?thesis by blast
  next
    case (Cons a pre2)
    with p1 have "es = pre2 @ TipSent i # post" by simp
    with assms(1) obtain pre' sid msg where "pre2 = pre' @ [SendFriendMessage i sid msg]" "\<not> t i"
      unfolding tip_follows_send_def by blast
    with p1 Cons show ?thesis
      by (intro conjI exI[of _ "SendFriendMessage j s x # a # pre'"] exI[of _ sid] exI[of _ msg]) simp_all
  qed
qed

lemma send_rows_tip_follows_send: "tip_follows_send t (snd (send_rows cl t rows db))"
proof (induction rows arbitrary: db)
  case Nil
  show ?case by (simp add: tip_follows_send_Nil)
next
  case (Cons row rows)
  show ?case
    unfolding send_rows_step
    by (auto intro!: tip_follows_send_Cons tip_follows_send_sent Cons.IH)
qed

lemma fetchPendingTips_ids:
  "map tip_id (fetchPendingTips db) = map job_id (sort_key job_id (filter tip_where db))"
  by (simp add: fetchPendingTips_def tip_select_def comp_def)

lemma fetchPendingTips_distinct:
  assumes "distinct (map job_id db)"
  shows "distinct (map tip_id (fetchPendingTips db))"
proof -
  have "distinct (map job_id (filter tip_where db))"
    using assms by (rule distinct_map_filter)
  then have "distinct (map job_id (sort_key job_id (filter tip_where db)))"
    by (simp add: distinct_map)
  then show ?thesis by (simp add: fetchPendingTips_ids)
qed

lemma blocked_rows_quiet:
  assumes d: "distinct (map job_id db)" and r: "row \<in> set (fetchPendingTips db)"
    and n: "\<not> canMessageUser cl (tip_steam_id row)"
  shows "\<forall>row'\<in>set (fetchPendingTips db). tip_id row' = tip_id row \<longrightarrow>
           \<not> canMessageUser cl (tip_steam_id row')"
proof (intro ballI impI)
  fix row' assume "row' \<in> set (fetchPendingTips db)" "tip_id row' = tip_id row"
  with r fetchPendingTips_distinct[OF d] have "row' = row"
    by (metis distinct_map inj_on_def)
  with n show "\<not> canMessageUser cl (tip_steam_id row')" by simp
qed

text \<open>
  Claim C9. Take a row that \<^verbatim>\<open>fetchPendingTips\<close> returns and whose recipient
  cannot be messaged, which is the case when the relationship is missing,
  \<^verbatim>\<open>None\<close>, \<^verbatim>\<open>Blocked\<close> or \<^verbatim>\<open>Ignored\<close>. In a run of \<^verbatim>\<open>sendPendingMessages\<close>
  there is no call of \<^verbatim>\<open>sendFriendMessage\<close> for the row and no \<^verbatim>\<open>markTipSent\<close>
  for it, its job is left in the table as it was, and the loop goes on: the
  run is the run over the rows before it, the warning for this row, and the run
  over the rows after it. Every \<^verbatim>\<open>markTipSent\<close> of a run comes directly after
  the call of \<^verbatim>\<open>sendFriendMessage\<close> for the same row, and that call did not
  throw. The run is a total function of its arguments: nothing is thrown.
\<close>

theorem blocked_recipient_is_skipped:
  assumes "distinct (map job_id db)"
    and "row \<in> set (fetchPendingTips db)"
    and "\<not> canMessageUser cl (tip_steam_id row)"
  shows "SendFriendMessage (tip_id row) sid msg \<notin> set (snd (sendPendingMessages fl cl send_throws db)) \<and>
         TipSent (tip_id row) \<notin> set (snd (sendPendingMessages fl cl send_throws db)) \<and>
         (\<forall>m\<in>set db. job_id m = tip_id row \<longrightarrow>
             m \<in> set (fst (sendPendingMessages fl cl send_throws db))) \<and>
         (\<forall>pre post. fetchPendingTips db = pre @ row # post \<longrightarrow>
             send_rows cl send_throws (fetchPendingTips db) db =
               (fst (send_rows cl send_throws post (fst (send_rows cl send_throws pre db))),
                snd (send_rows cl send_throws pre db) @ CannotMessage (tip_id row)
                  # snd (send_rows cl send_throws post (fst (send_rows cl send_throws pre db))))) \<and>
         tip_follows_send send_throws (snd (sendPendingMessages fl cl send_throws db)) \<and>
         (relationship_of cl steamId = None \<or> relationship_of cl steamId = Some Relationship_None \<or>
          relationship_of cl steamId = Some Blocked \<or> relationship_of cl steamId = Some Ignored
            \<longrightarrow> \<not> canMessageUser cl (Some steamId))"
proof (intro conjI)
  note q = send_rows_quiet_id[OF blocked_rows_quiet[OF assms], of sid msg send_throws db]
  show s: "SendFriendMessage (tip_id row) sid msg \<notin> set (snd (sendPendingMessages fl cl send_throws db))"
    using q by (simp add: sendPendingMessages_def)
  show t: "TipSent (tip_id row) \<notin> set (snd (sendPendingMessages fl cl send_throws db))"
    using q by (simp add: sendPendingMessages_def)
  show "\<forall>m\<in>set db. job_id m = tip_id row \<longrightarrow> m \<in> set (fst (sendPendingMessages fl cl send_throws db))"
  proof (intro ballI impI)
    fix m assume m: "m \<in> set db" "job_id m = tip_id row"
    with q have "TipSent (job_id m) \<notin> set (snd (send_rows cl send_throws (fetchPendingTips db) db))"
      by simp
    from send_rows_row_kept[OF this m(1)] m(1)
    show "m \<in> set (fst (sendPendingMessages fl cl send_throws db))"
      by (simp add: sendPendingMessages_def)
  qed
  show "\<forall>pre post. fetchPendingTips db = pre @ row # post \<longrightarrow>
             send_rows cl send_throws (fetchPendingTips db) db =
               (fst (send_rows cl send_throws post (fst (send_rows cl send_throws pre db))),
                snd (send_rows cl send_throws pre db) @ CannotMessage (tip_id row)
                  # snd (send_rows cl send_throws post (fst (send_rows cl send_throws pre db))))"
  proof (intro allI impI)
    fix pre post assume e: "fetchPendingTips db = pre @ row # post"
    show "send_rows cl send_throws (fetchPendingTips db) db =
               (fst (send_rows cl send_throws post (fst (send_rows cl send_throws pre db))),
                snd (send_rows cl send_throws pre db) @ CannotMessage (tip_id row)
                  # snd (send_rows cl send_throws post (fst (send_rows cl send_throws pre db))))"
      unfolding e send_rows_append[of cl send_throws pre "row # post" db]
      using assms(3) by (simp add: send_rows_step del: send_rows.simps(2))
  qed
  show "tip_follows_send send_throws (snd (sendPendingMessages fl cl send_throws db))"
    using send_rows_tip_follows_send[of send_throws cl "fetchPendingTips db" db]
    by (simp add: sendPendingMessages_def tip_follows_send_Nil)
  show "relationship_of cl steamId = None \<or> relationship_of cl steamId = Some Relationship_None \<or>
          relationship_of cl steamId = Some Blocked \<or> relationship_of cl steamId = Some Ignored
            \<longrightarrow> \<not> canMessageUser cl (Some steamId)"
    by (auto simp: canMessageUser_relationship)
qed

lemma three_tips_fetched:
  "fetchPendingTips [with_tip 3 ''u1'' ''tip a'', with_tip 4 ''u2'' ''tip b'', with_tip 5 ''u1'' ''tip c'']
     = [tip_select (with_tip 3 ''u1'' ''tip a''), tip_select (with_tip 4 ''u2'' ''tip b''),
        tip_select (with_tip 5 ''u1'' ''tip c'')]"
  by (simp add: fetchPendingTips_def tip_where_def with_tip_def new_job_def)

text \<open>
  The theorem for claim C9 at three jobs with tips, the first and the third of
  a user who has blocked the bot: only the second tip is sent and marked.
\<close>

theorem blocked_recipient_is_skipped_witness:
  "distinct (map job_id [with_tip 3 ''u1'' ''tip a'', with_tip 4 ''u2'' ''tip b'', with_tip 5 ''u1'' ''tip c'']) \<and>
   tip_select (with_tip 3 ''u1'' ''tip a'')
     \<in> set (fetchPendingTips [with_tip 3 ''u1'' ''tip a'', with_tip 4 ''u2'' ''tip b'', with_tip 5 ''u1'' ''tip c'']) \<and>
   relationship_of (friends_of_u1 Blocked) ''u1'' = Some Blocked \<and>
   \<not> canMessageUser (friends_of_u1 Blocked) (tip_steam_id (tip_select (with_tip 3 ''u1'' ''tip a''))) \<and>
   TipSent 3 \<notin> set (snd (sendPendingMessages idle (friends_of_u1 Blocked) never_throws
      [with_tip 3 ''u1'' ''tip a'', with_tip 4 ''u2'' ''tip b'', with_tip 5 ''u1'' ''tip c''])) \<and>
   with_tip 3 ''u1'' ''tip a'' \<in> set (fst (sendPendingMessages idle (friends_of_u1 Blocked) never_throws
      [with_tip 3 ''u1'' ''tip a'', with_tip 4 ''u2'' ''tip b'', with_tip 5 ''u1'' ''tip c''])) \<and>
   snd (sendPendingMessages idle (friends_of_u1 Blocked) never_throws
      [with_tip 3 ''u1'' ''tip a'', with_tip 4 ''u2'' ''tip b'', with_tip 5 ''u1'' ''tip c''])
     = [CannotMessage 3, SendFriendMessage 4 ''u2'' ''tip b'', TipSent 4, CannotMessage 5]"
proof -
  let ?db = "[with_tip 3 ''u1'' ''tip a'', with_tip 4 ''u2'' ''tip b'', with_tip 5 ''u1'' ''tip c'']"
  let ?row = "tip_select (with_tip 3 ''u1'' ''tip a'')"
  let ?cl = "friends_of_u1 Blocked"
  have d: "distinct (map job_id ?db)" by (simp add: with_tip_def new_job_def)
  have r: "?row \<in> set (fetchPendingTips ?db)" by (simp add: three_tips_fetched)
  have rel: "relationship_of ?cl ''u1'' = Some Blocked"
    by (simp add: relationship_of_def friends_of_u1_def)
  have sid: "tip_steam_id ?row = Some ''u1''" by (simp add: tip_select_def with_tip_def new_job_def)
  note t = blocked_recipient_is_skipped[OF d r, of ?cl _ _ idle never_throws "''u1''"]
  have n: "\<not> canMessageUser ?cl (tip_steam_id ?row)"
    unfolding sid by (simp add: canMessageUser_def rel)
  have i: "tip_id ?row = 3" by (simp add: tip_select_def with_tip_def new_job_def)
  have j: "job_id (with_tip 3 ''u1'' ''tip a'') = 3" by (simp add: with_tip_def new_job_def)
  have m: "with_tip 3 ''u1'' ''tip a'' \<in> set ?db" "job_id (with_tip 3 ''u1'' ''tip a'') = tip_id ?row"
    unfolding i j by simp_all
  from t[OF n] have "TipSent (tip_id ?row) \<notin> set (snd (sendPendingMessages idle ?cl never_throws ?db))"
    and "\<forall>m\<in>set ?db. job_id m = tip_id ?row \<longrightarrow> m \<in> set (fst (sendPendingMessages idle ?cl never_throws ?db))"
    by blast+
  with m have k: "TipSent 3 \<notin> set (snd (sendPendingMessages idle ?cl never_throws ?db))"
    "with_tip 3 ''u1'' ''tip a'' \<in> set (fst (sendPendingMessages idle ?cl never_throws ?db))"
    unfolding i by blast+
  have run: "snd (sendPendingMessages idle ?cl never_throws ?db)
     = [CannotMessage 3, SendFriendMessage 4 ''u2'' ''tip b'', TipSent 4, CannotMessage 5]"
  proof -
    have "sendPendingMessages idle ?cl never_throws ?db =
            send_rows ?cl never_throws
              [?row, tip_select (with_tip 4 ''u2'' ''tip b''), tip_select (with_tip 5 ''u1'' ''tip c'')] ?db"
      by (simp only: sendPendingMessages_def three_tips_fetched) (simp add: idle_def)
    then show ?thesis
      by (simp add: send_rows_step canMessageUser_def relationship_of_def friends_of_u1_def
            never_throws_def tip_select_def with_tip_def new_job_def del: send_rows.simps(2))
  qed
  from d r rel n k run show ?thesis by blast
qed

section \<open>Properties of the download cycle and of the coordinator request\<close>



text \<open>A cycle that runs, claims a row and finds no cooldown in force.\<close>

lemma processPending_claimed:
  assumes "\<not> isProcessing fl" "gcReady fl"
    and "getPendingMatch (table st) = (Some row, db)"
    and "\<forall>t. retryAfterByMatchId st (row_id row) = Some t \<longrightarrow> t = 0 \<or> t \<le> now_at_check env"
  shows "processPending cfg env fl st =
           (case try_download cfg env row (st\<lparr>table := db\<rparr>) of
              Inr st' \<Rightarrow> st'
            | Inl error \<Rightarrow> catch_error cfg env row error (st\<lparr>table := db\<rparr>))"
proof -
  have "\<not> (case retryAfterByMatchId st (row_id row) of
             None \<Rightarrow> False
           | Some retryAfter \<Rightarrow> retryAfter \<noteq> 0 \<and> now_at_check env < retryAfter)"
    using assms(4) by (auto split: option.splits)
  then show ?thesis using assms(1-3) by (simp add: processPending_def Let_def)
qed


lemma catch_error_mark:
  assumes "\<not> str_includes (message_of error) ''Replay download failed: 502''"
  shows "catch_error cfg env row error st = st\<lparr>table := markError (row_id row) (table st)\<rparr>"
  using assms by (simp add: catch_error_def)

lemma message_of_new_Error [simp]: "message_of (new_Error msg) = msg"
  by (simp add: message_of_def new_Error_def)

lemma marker_includes: "str_includes ''Replay download failed: 502'' ''Replay download failed: 502''"
  by simp










lemma timeout_message:
  "\<not> str_includes ''Timed out waiting for matchList'' ''Replay download failed: 502''"
  by simp




lemma one_pending_claim:
  "getPendingMatch (table one_pending) =
     (Some (select_row (new_job 12 ''CSGO-b'' ''u1'')),
      [(new_job 12 ''CSGO-b'' ''u1'')\<lparr>status := Processing\<rparr>])"
  by (simp add: one_pending_def getPendingMatch_def pending_cte_def order_by_id_desc_limit_1_def
        pending_where_def max_id_of_user_def sql_max_def sql_eq_def set_status_def new_job_def
        select_row_def)

lemma one_pending_no_cooldown:
  "\<forall>t. retryAfterByMatchId one_pending (row_id (select_row (new_job 12 ''CSGO-b'' ''u1''))) = Some t
        \<longrightarrow> t = 0 \<or> t \<le> now_at_check env"
  by (simp add: one_pending_def)

lemma idle_flags: "\<not> isProcessing idle" "gcReady idle"
  by (simp_all add: idle_def)


lemma claimed_row_id: "row_id (select_row (new_job 12 ''CSGO-b'' ''u1'')) = 12"
  by (simp add: select_row_def new_job_def)




text \<open>
  Claim C6 at the failing input: \<^verbatim>\<open>requestGame\<close> does not throw and the timer of
  20000 ms runs out before a \<^verbatim>\<open>matchList\<close> event. The promise is rejected with
  the timeout error and the cycle marks the claimed job \<^verbatim>\<open>error\<close>, but the
  handler is still attached after the timeout, whereas a throwing
  \<^verbatim>\<open>requestGame\<close> leaves no handler behind.
\<close>

theorem requestMatch_timeout_keeps_listener:
  "settled (requestMatch None [TimerFires]) =
     Some (Inl (new_Error ''Timed out waiting for matchList'')) \<and>
   timer_ms (requestMatch_start None) = Some 20000 \<and>
   listener_attached (requestMatch None [TimerFires]) \<and>
   \<not> listener_attached (requestMatch (Some (new_Error ''GC not connected'')) []) \<and>
   status_of (table (processPending default_config
                       (env_with (Inl (new_Error ''Timed out waiting for matchList'')) always_502)
                       idle one_pending)) 12 = Some Error"
proof -
  let ?timeout = "new_Error ''Timed out waiting for matchList''"
  let ?env = "env_with (Inl ?timeout) always_502"
  let ?row = "select_row (new_job 12 ''CSGO-b'' ''u1'')"
  let ?db = "[(new_job 12 ''CSGO-b'' ''u1'')\<lparr>status := Processing\<rparr>]"
  have r: "settled (requestMatch None [TimerFires]) = Some (Inl ?timeout)"
    "timer_ms (requestMatch_start None) = Some 20000"
    "listener_attached (requestMatch None [TimerFires])"
    "\<not> listener_attached (requestMatch (Some (new_Error ''GC not connected'')) [])"
    by (simp_all add: requestMatch_def requestMatch_start_def settle_def)
  have t: "try_download default_config ?env ?row (one_pending\<lparr>table := ?db\<rparr>) = Inl ?timeout"
    by (simp add: try_download_def env_with_def)
  have "processPending default_config ?env idle one_pending =
          catch_error default_config ?env ?row ?timeout (one_pending\<lparr>table := ?db\<rparr>)"
    using processPending_claimed[OF idle_flags one_pending_claim one_pending_no_cooldown,
            of default_config ?env] t
    by simp
  also have "\<dots> = one_pending\<lparr>table := markError (row_id ?row) ?db\<rparr>"
    using timeout_message by (subst catch_error_mark) (simp_all del: str_includes.simps)
  finally have "status_of (table (processPending default_config ?env idle one_pending)) 12 = Some Error"
    unfolding claimed_row_id
    by (simp add: markError_def set_status_def status_of_def new_job_def)
  with r show ?thesis by blast
qed

end
